theory Spec2Isabelle
  imports Main
begin

section \<open>JavaScript values\<close>

text \<open>
  The data a caller hands to the Tracer: plain JavaScript values. Numbers are the
  integers (timestamps, process ids); an object is its list of own enumerable
  properties in insertion order. Values are immutable here: the only objects the
  library itself mutates, a Tracer and its \<open>fields\<close> object, live in the store
  below. Function values are not data of this model.
\<close>

datatype jsval =
    JUndefined
  | JNull
  | JBool bool
  | JNum int
  | JStr string
  | JArr "jsval list"
  | JObj "(string \<times> jsval) list"

type_synonym obj = "(string \<times> jsval) list"

fun typeof :: "jsval \<Rightarrow> string" where
  "typeof JUndefined = ''undefined''"
| "typeof JNull = ''object''"
| "typeof (JBool b) = ''boolean''"
| "typeof (JNum n) = ''number''"
| "typeof (JStr s) = ''string''"
| "typeof (JArr xs) = ''object''"
| "typeof (JObj kvs) = ''object''"

fun truthy :: "jsval \<Rightarrow> bool" where
  "truthy JUndefined = False"
| "truthy JNull = False"
| "truthy (JBool b) = b"
| "truthy (JNum n) = (n \<noteq> 0)"
| "truthy (JStr s) = (s \<noteq> [])"
| "truthy (JArr xs) = True"
| "truthy (JObj kvs) = True"

text \<open>\<open>v != null\<close> is false for \<open>null\<close> and for \<open>undefined\<close>.\<close>

fun nullish :: "jsval \<Rightarrow> bool" where
  "nullish JUndefined = True"
| "nullish JNull = True"
| "nullish v = False"

fun isArray :: "jsval \<Rightarrow> bool" where
  "isArray (JArr xs) = True"
| "isArray v = False"

subsection \<open>Numbers and strings as text\<close>

definition digit_char :: "nat \<Rightarrow> char" where
  "digit_char d = char_of (48 + d)"

fun show_nat :: "nat \<Rightarrow> string" where
  "show_nat n = (if n < 10 then [digit_char n] else show_nat (n div 10) @ [digit_char (n mod 10)])"

declare show_nat.simps [simp del]

definition show_int :: "int \<Rightarrow> string" where
  "show_int i = (if i < 0 then CHR ''-'' # show_nat (nat (- i)) else show_nat (nat i))"

fun join_with :: "string \<Rightarrow> string list \<Rightarrow> string" where
  "join_with sep [] = []"
| "join_with sep [x] = x"
| "join_with sep (x # y # ys) = x @ sep @ join_with sep (y # ys)"

text \<open>
  \<open>String(v)\<close>, and \<open>Array.prototype.join(",")\<close>, which writes \<open>null\<close> and
  \<open>undefined\<close> elements as the empty string.
\<close>

fun to_string :: "jsval \<Rightarrow> string" where
  "to_string JUndefined = ''undefined''"
| "to_string JNull = ''null''"
| "to_string (JBool b) = (if b then ''true'' else ''false'')"
| "to_string (JNum n) = show_int n"
| "to_string (JStr s) = s"
| "to_string (JArr xs) = join_with '','' (map (\<lambda>x. if nullish x then [] else to_string x) xs)"
| "to_string (JObj kvs) = ''[object Object]''"

definition array_join :: "jsval list \<Rightarrow> string" where
  "array_join xs = join_with '','' (map (\<lambda>x. if nullish x then [] else to_string x) xs)"

subsection \<open>Properties\<close>

text \<open>
  The own enumerable properties \<open>Object.keys\<close> and \<open>Object.assign\<close> see: those of
  an object, the indices of an array, the indices of a string; a number or a boolean
  has none.
\<close>

fun own_entries :: "jsval \<Rightarrow> obj" where
  "own_entries (JObj kvs) = kvs"
| "own_entries (JArr xs) = zip (map show_nat [0..<length xs]) xs"
| "own_entries (JStr s) = zip (map show_nat [0..<length s]) (map (\<lambda>c. JStr [c]) s)"
| "own_entries v = []"

definition own_keys :: "jsval \<Rightarrow> string list" where
  "own_keys v = map fst (own_entries v)"

definition obj_get :: "obj \<Rightarrow> string \<Rightarrow> jsval" where
  "obj_get kvs k = (case map_of kvs k of Some v \<Rightarrow> v | None \<Rightarrow> JUndefined)"

text \<open>
  \<open>v[k]\<close> on a value that is neither \<open>null\<close> nor \<open>undefined\<close> (the callers below
  read no property of those).
\<close>

definition get_prop :: "jsval \<Rightarrow> string \<Rightarrow> jsval" where
  "get_prop v k = obj_get (own_entries v) k"

text \<open>\<open>o[k] = v\<close>: an existing key keeps its place, a new one goes last.\<close>

fun set_prop :: "obj \<Rightarrow> string \<Rightarrow> jsval \<Rightarrow> obj" where
  "set_prop [] k v = [(k, v)]"
| "set_prop ((k', v') # kvs) k v =
     (if k' = k then (k, v) # kvs else (k', v') # set_prop kvs k v)"

text \<open>
  \<open>Object.assign(target, source)\<close>: for every own enumerable key of the source in
  order, \<open>target[key] = source[key]\<close>.
\<close>

definition Object_assign :: "obj \<Rightarrow> jsval \<Rightarrow> obj" where
  "Object_assign target source =
     fold (\<lambda>k t. set_prop t k (get_prop source k)) (own_keys source) target"

subsection \<open>\<open>JSON.stringify\<close>\<close>

definition hex_digit :: "nat \<Rightarrow> char" where
  "hex_digit d = (if d < 10 then char_of (48 + d) else char_of (87 + d))"

fun quote_char :: "char \<Rightarrow> string" where
  "quote_char c =
     (if c = CHR ''\"'' then [CHR 0x5C, CHR ''\"'']
      else if c = CHR 0x5C then [CHR 0x5C, CHR 0x5C]
      else if c = CHR 0x08 then [CHR 0x5C, CHR ''b'']
      else if c = CHR 0x0C then [CHR 0x5C, CHR ''f'']
      else if c = CHR 0x0A then [CHR 0x5C, CHR ''n'']
      else if c = CHR 0x0D then [CHR 0x5C, CHR ''r'']
      else if c = CHR 0x09 then [CHR 0x5C, CHR ''t'']
      else if of_char c < (32 :: nat) then
        [CHR 0x5C, CHR ''u'', CHR ''0'', CHR ''0'',
         hex_digit (of_char c div 16), hex_digit (of_char c mod 16)]
      else [c])"

definition quote :: "string \<Rightarrow> string" where
  "quote s = CHR ''\"'' # concat (map quote_char s) @ [CHR ''\"'']"

text \<open>
  \<open>JSON.stringify\<close> on plain data: an \<open>undefined\<close> array element is written
  \<open>null\<close>, a property whose value is \<open>undefined\<close> is left out. At the top an
  \<open>undefined\<close> gives no text at all in JavaScript; the Tracer only ever passes an
  event object, and the clause for it here is what string concatenation would make of it.
\<close>

fun JSON_stringify :: "jsval \<Rightarrow> string" where
  "JSON_stringify JUndefined = ''undefined''"
| "JSON_stringify JNull = ''null''"
| "JSON_stringify (JBool b) = (if b then ''true'' else ''false'')"
| "JSON_stringify (JNum n) = show_int n"
| "JSON_stringify (JStr s) = quote s"
| "JSON_stringify (JArr xs) =
     ''['' @ join_with '','' (map (\<lambda>x. if x = JUndefined then ''null'' else JSON_stringify x) xs) @ '']''"
| "JSON_stringify (JObj kvs) =
     ''{'' @ join_with '',''
        (map (\<lambda>(k, v). quote k @ '':'' @ JSON_stringify v)
             (filter (\<lambda>(k, v). v \<noteq> JUndefined) kvs)) @ ''}''"

section \<open>The store: Tracers and their field objects\<close>

type_synonym ref = nat

text \<open>What \<open>Readable.push\<close> received: a text fragment, or an object in object mode.\<close>

datatype chunk = ChunkText string | ChunkObject jsval

text \<open>
  The functions a Tracer's \<open>_push\<close> can hold, \<open>Readable.prototype.push\<close> and
  \<open>Tracer.prototype._pushString\<close> (the one of the TypeScript source, or the one of
  \<open>lib/trace-event.js\<close>), either as they are (the receiver is whoever calls
  \<open>this._push(ev)\<close>) or bound to a Tracer by \<open>bind\<close>.
\<close>

datatype push_method = Readable_push | PushString | PushString_js

datatype jsfun = Unbound push_method | Bound ref push_method

fun bind :: "jsfun \<Rightarrow> ref \<Rightarrow> jsfun" where
  "bind (Unbound m) r = Bound r m"
| "bind (Bound r' m) r = Bound r' m"

text \<open>\<open>opts.parent\<close>: a Tracer of the store, or plain data.\<close>

datatype parent_opt = ParentTracer ref | ParentVal jsval

text \<open>
  What a call can throw. \<open>Dangling\<close> is no JavaScript outcome: it is the model's
  answer when a reference names no object of the store.
\<close>

datatype error = Error string | TypeError | AssertionError | Dangling

record tracer =
  noStream :: jsval
  events :: "jsval list"
  parent :: parent_opt
  fields_obj :: ref
  objectMode :: "bool option"
  push_fn :: jsfun
  firstPush :: bool
  pushed :: "chunk list"

record store =
  tracers :: "tracer list"
  objects :: "obj list"

definition empty_store :: store where
  "empty_store = \<lparr>tracers = [], objects = []\<rparr>"

definition lookup :: "'a list \<Rightarrow> nat \<Rightarrow> 'a option" where
  "lookup xs i = (if i < length xs then Some (xs ! i) else None)"

record TracerOptions =
  opt_parent :: parent_opt
  opt_fields :: jsval
  opt_objectMode :: jsval
  opt_noStream :: jsval

text \<open>The process clock and identity \<open>evCommon\<close> reads.\<close>

record clock =
  hrtime_sec :: int
  hrtime_nsec :: int
  process_pid :: int

text \<open>
  \<open>Math.round(ns / 1000)\<close> rounds half up, which on an integer \<open>ns\<close> is
  \<open>(ns + 500) div 1000\<close>.
\<close>

definition evCommon :: "clock \<Rightarrow> obj" where
  "evCommon c =
     [(''ts'', JNum (hrtime_sec c * 1000000 + (hrtime_nsec c + 500) div 1000)),
      (''pid'', JNum (process_pid c)),
      (''tid'', JNum (process_pid c))]"

section \<open>The Tracer of the TypeScript source\<close>

subsection \<open>Construction\<close>

text \<open>
  \<open>this.fields = Object.assign({}, opts.parent && opts.parent.fields)\<close> when the parent
  is truthy, \<open>{}\<close> otherwise.
\<close>

definition inherited_fields :: "parent_opt \<Rightarrow> store \<Rightarrow> error + obj" where
  "inherited_fields p s =
     (case p of
        ParentTracer r \<Rightarrow>
          (case lookup (tracers s) r of
             None \<Rightarrow> Inl Dangling
           | Some pt \<Rightarrow>
               (case lookup (objects s) (fields_obj pt) of
                  None \<Rightarrow> Inl Dangling
                | Some fs \<Rightarrow> Inr (Object_assign [] (JObj fs))))
      | ParentVal v \<Rightarrow>
          Inr (if truthy v then Object_assign [] (get_prop v ''fields'') else []))"

text \<open>
  The overlay of \<open>opts.fields\<close>, the fallback and the join for \<open>cat\<close>, the fallback
  for \<open>args\<close>.
\<close>

definition merge_fields :: "obj \<Rightarrow> jsval \<Rightarrow> obj" where
  "merge_fields base flds =
     (let f1 = (if truthy flds then Object_assign base flds else base);
          f2 = (if \<not> truthy (obj_get f1 ''cat'') then set_prop f1 ''cat'' (JStr ''default'')
                else (case obj_get f1 ''cat'' of
                        JArr xs \<Rightarrow> set_prop f1 ''cat'' (JStr (array_join xs))
                      | _ \<Rightarrow> f1))
      in if \<not> truthy (obj_get f2 ''args'') then set_prop f2 ''args'' (JObj []) else f2)"

definition alloc :: "tracer \<Rightarrow> obj \<Rightarrow> store \<Rightarrow> ref \<times> store" where
  "alloc t fs s =
     (length (tracers s),
      s\<lparr>tracers := tracers s @ [t\<lparr>fields_obj := length (objects s)\<rparr>],
        objects := objects s @ [fs]\<rparr>)"

text \<open>
  The constructor on an options object. A constructor that throws leaves nothing
  behind: the object under construction is unreachable, so the store is the caller's.
  A truthy parent that is plain data has no function \<open>_push\<close>, and
  \<open>this.parent._push.bind\<close> throws a TypeError.
\<close>

definition Tracer_constructor :: "TracerOptions \<Rightarrow> store \<Rightarrow> error + (ref \<times> store)" where
  "Tracer_constructor opts s =
     (if (case opt_parent opts of
            ParentVal v \<Rightarrow> \<not> nullish v \<and> typeof v \<noteq> ''object''
          | ParentTracer r \<Rightarrow> False)
      then Inl (Error ''Invalid option (parent) passed (must be an object)'')
      else if \<not> nullish (opt_fields opts) \<and> typeof (opt_fields opts) \<noteq> ''object''
      then Inl (Error ''Invalid option (fields) passed (must be an object)'')
      else if \<not> nullish (opt_objectMode opts) \<and>
              opt_objectMode opts \<noteq> JBool True \<and> opt_objectMode opts \<noteq> JBool False
      then Inl (Error ''Invalid option (objectsMode) passed (must be a boolean)'')
      else
        (case inherited_fields (opt_parent opts) s of
           Inl e \<Rightarrow> Inl e
         | Inr base \<Rightarrow>
             (let fs = merge_fields base (opt_fields opts);
                  ns = (if truthy (opt_noStream opts) then opt_noStream opts else JBool False)
              in case opt_parent opts of
                   ParentTracer r \<Rightarrow>
                     (case lookup (tracers s) r of
                        None \<Rightarrow> Inl Dangling
                      | Some pt \<Rightarrow>
                          Inr (alloc \<lparr>noStream = ns, events = [], parent = ParentTracer r,
                                      fields_obj = 0, objectMode = None,
                                      push_fn = bind (push_fn pt) r,
                                      firstPush = False, pushed = []\<rparr> fs s))
                 | ParentVal v \<Rightarrow>
                     if truthy v then Inl TypeError
                     else
                       Inr (alloc \<lparr>noStream = ns, events = [], parent = ParentVal v,
                                   fields_obj = 0,
                                   objectMode = Some (truthy (opt_objectMode opts)),
                                   push_fn = Unbound (if truthy (opt_objectMode opts)
                                                      then Readable_push else PushString),
                                   firstPush = False, pushed = []\<rparr> fs s))))"

text \<open>The options object read off plain data.\<close>

definition options_of :: "jsval \<Rightarrow> TracerOptions" where
  "options_of v =
     \<lparr>opt_parent = ParentVal (get_prop v ''parent''),
      opt_fields = get_prop v ''fields'',
      opt_objectMode = get_prop v ''objectMode'',
      opt_noStream = get_prop v ''noStream''\<rparr>"

text \<open>
  \<open>new Tracer(opts)\<close> with plain data for \<open>opts\<close>: the default \<open>{}\<close> for a missing
  argument, the first check, and the TypeError of reading \<open>opts.parent\<close> off \<open>null\<close>.
\<close>

definition new_Tracer :: "jsval \<Rightarrow> store \<Rightarrow> error + (ref \<times> store)" where
  "new_Tracer opts s =
     (if opts = JUndefined then Tracer_constructor (options_of (JObj [])) s
      else if typeof opts \<noteq> ''object'' then Inl (Error ''Invalid options passed (must be an object)'')
      else if opts = JNull then Inl TypeError
      else Tracer_constructor (options_of opts) s)"

definition child :: "ref \<Rightarrow> jsval \<Rightarrow> store \<Rightarrow> error + (ref \<times> store)" where
  "child this flds s =
     Tracer_constructor
       \<lparr>opt_parent = ParentTracer this, opt_fields = flds,
        opt_objectMode = JUndefined, opt_noStream = JUndefined\<rparr> s"

text \<open>
  The constructor once more, keeping the object under construction, \<open>this\<close>, at a
  throw. \<open>super()\<close> has made its stream, and the class sets \<open>noStream = false\<close> and
  \<open>events = []\<close> on it before the body runs, so before the first check; the body
  assigns every other property after the last check, and \<open>firstPush\<close> not at all. A
  property is \<open>None\<close> while nothing is assigned to it.
\<close>

record under_construction =
  this_noStream :: "jsval option"
  this_events :: "jsval list option"
  this_parent :: "parent_opt option"
  this_fields :: "obj option"
  this_objectMode :: "bool option"
  this_push :: "jsfun option"
  this_firstPush :: "bool option"
  this_pushed :: "chunk list"

definition initializers :: under_construction where
  "initializers =
     \<lparr>this_noStream = Some (JBool False), this_events = Some [], this_parent = None,
      this_fields = None, this_objectMode = None, this_push = None,
      this_firstPush = None, this_pushed = []\<rparr>"

definition Tracer_constructor_this ::
    "TracerOptions \<Rightarrow> store \<Rightarrow> (error \<times> under_construction) + (ref \<times> store)" where
  "Tracer_constructor_this opts s =
     (let this0 = initializers
      in if (case opt_parent opts of
               ParentVal v \<Rightarrow> \<not> nullish v \<and> typeof v \<noteq> ''object''
             | ParentTracer r \<Rightarrow> False)
         then Inl (Error ''Invalid option (parent) passed (must be an object)'', this0)
         else if \<not> nullish (opt_fields opts) \<and> typeof (opt_fields opts) \<noteq> ''object''
         then Inl (Error ''Invalid option (fields) passed (must be an object)'', this0)
         else if \<not> nullish (opt_objectMode opts) \<and>
                 opt_objectMode opts \<noteq> JBool True \<and> opt_objectMode opts \<noteq> JBool False
         then Inl (Error ''Invalid option (objectsMode) passed (must be a boolean)'', this0)
         else
           (let ns = (if truthy (opt_noStream opts) then opt_noStream opts else JBool False);
                this1 = this0\<lparr>this_noStream := Some ns, this_parent := Some (opt_parent opts)\<rparr>
            in case inherited_fields (opt_parent opts) s of
                 Inl e \<Rightarrow> Inl (e, this1)
               | Inr base \<Rightarrow>
                   (let fs = merge_fields base (opt_fields opts);
                        this2 = this1\<lparr>this_fields := Some fs\<rparr>
                    in case opt_parent opts of
                         ParentTracer r \<Rightarrow>
                           (case lookup (tracers s) r of
                              None \<Rightarrow> Inl (Dangling, this2)
                            | Some pt \<Rightarrow>
                                Inr (alloc \<lparr>noStream = ns, events = [], parent = ParentTracer r,
                                            fields_obj = 0, objectMode = None,
                                            push_fn = bind (push_fn pt) r,
                                            firstPush = False, pushed = []\<rparr> fs s))
                       | ParentVal v \<Rightarrow>
                           if truthy v then Inl (TypeError, this2)
                           else
                             Inr (alloc \<lparr>noStream = ns, events = [], parent = ParentVal v,
                                         fields_obj = 0,
                                         objectMode = Some (truthy (opt_objectMode opts)),
                                         push_fn = Unbound (if truthy (opt_objectMode opts)
                                                            then Readable_push else PushString),
                                         firstPush = False, pushed = []\<rparr> fs s))))"

definition new_Tracer_this ::
    "jsval \<Rightarrow> store \<Rightarrow> (error \<times> under_construction) + (ref \<times> store)" where
  "new_Tracer_this opts s =
     (if opts = JUndefined then Tracer_constructor_this (options_of (JObj [])) s
      else if typeof opts \<noteq> ''object''
      then Inl (Error ''Invalid options passed (must be an object)'', initializers)
      else if opts = JNull then Inl (TypeError, initializers)
      else Tracer_constructor_this (options_of opts) s)"

subsection \<open>Delivery\<close>

definition stream_push :: "ref \<Rightarrow> chunk \<Rightarrow> store \<Rightarrow> store" where
  "stream_push r c s =
     s\<lparr>tracers := (tracers s)[r := (tracers s ! r)\<lparr>pushed := pushed (tracers s ! r) @ [c]\<rparr>]\<rparr>"

definition set_firstPush :: "ref \<Rightarrow> store \<Rightarrow> store" where
  "set_firstPush r s = s\<lparr>tracers := (tracers s)[r := (tracers s ! r)\<lparr>firstPush := True\<rparr>]\<rparr>"

definition pushString :: "ref \<Rightarrow> jsval \<Rightarrow> store \<Rightarrow> error + store" where
  "pushString this ev s =
     (case lookup (tracers s) this of
        None \<Rightarrow> Inl Dangling
      | Some t \<Rightarrow>
          if \<not> firstPush t
          then Inr (stream_push this (ChunkText (JSON_stringify ev))
                     (set_firstPush this (stream_push this (ChunkText ''['') s)))
          else Inr (stream_push this (ChunkText ([CHR '','', CHR 0x0A] @ JSON_stringify ev)) s))"

text \<open>
  \<open>_pushString\<close> of \<open>lib/trace-event.js\<close>: the separator follows every event.
\<close>

definition pushString_js :: "ref \<Rightarrow> jsval \<Rightarrow> store \<Rightarrow> error + store" where
  "pushString_js this ev s =
     (case lookup (tracers s) this of
        None \<Rightarrow> Inl Dangling
      | Some t \<Rightarrow>
          if \<not> firstPush t
          then Inr (stream_push this (ChunkText (JSON_stringify ev @ [CHR '','', CHR 0x0A]))
                     (set_firstPush this (stream_push this (ChunkText ''['') s)))
          else Inr (stream_push this (ChunkText (JSON_stringify ev @ [CHR '','', CHR 0x0A])) s))"

definition apply_method :: "push_method \<Rightarrow> ref \<Rightarrow> jsval \<Rightarrow> store \<Rightarrow> error + store" where
  "apply_method m r ev s =
     (case m of
        Readable_push \<Rightarrow>
          (if r < length (tracers s) then Inr (stream_push r (ChunkObject ev) s) else Inl Dangling)
      | PushString \<Rightarrow> pushString r ev s
      | PushString_js \<Rightarrow> pushString_js r ev s)"

text \<open>\<open>this._push(ev)\<close>.\<close>

definition call_push :: "ref \<Rightarrow> jsval \<Rightarrow> store \<Rightarrow> error + store" where
  "call_push this ev s =
     (case lookup (tracers s) this of
        None \<Rightarrow> Inl Dangling
      | Some t \<Rightarrow>
          (case push_fn t of
             Unbound m \<Rightarrow> apply_method m this ev s
           | Bound r m \<Rightarrow> apply_method m r ev s))"

subsection \<open>Phase methods\<close>

text \<open>
  One turn of \<open>for (const k of Object.keys(fields))\<close>. \<open>fields.cat.join\<close> is a
  function only on an array.
\<close>

definition copy_field :: "jsval \<Rightarrow> string \<Rightarrow> obj \<Rightarrow> error + obj" where
  "copy_field flds k ev =
     (if k = ''cat'' then
        (case get_prop flds ''cat'' of
           JArr xs \<Rightarrow> Inr (set_prop ev ''cat'' (JStr (array_join xs)))
         | _ \<Rightarrow> Inl TypeError)
      else Inr (set_prop ev k (get_prop flds k)))"

fun copy_fields :: "jsval \<Rightarrow> string list \<Rightarrow> obj \<Rightarrow> error + obj" where
  "copy_fields flds [] ev = Inr ev"
| "copy_fields flds (k # ks) ev =
     (case copy_field flds k ev of Inl e \<Rightarrow> Inl e | Inr ev' \<Rightarrow> copy_fields flds ks ev')"

definition build_event :: "string \<Rightarrow> jsval \<Rightarrow> clock \<Rightarrow> error + obj" where
  "build_event ph flds c =
     (let ev = set_prop (evCommon c) ''ph'' (JStr ph)
      in if truthy flds then
           (case flds of
              JStr name \<Rightarrow> Inr (set_prop ev ''name'' (JStr name))
            | _ \<Rightarrow> copy_fields flds (own_keys flds) ev)
         else Inr ev)"

definition mkEventFunc :: "string \<Rightarrow> ref \<Rightarrow> jsval \<Rightarrow> clock \<Rightarrow> store \<Rightarrow> error + store" where
  "mkEventFunc ph this flds c s =
     (case build_event ph flds c of
        Inl e \<Rightarrow> Inl e
      | Inr ev \<Rightarrow>
          (case lookup (tracers s) this of
             None \<Rightarrow> Inl Dangling
           | Some t \<Rightarrow>
               if \<not> truthy (noStream t) then call_push this (JObj ev) s
               else Inr (s\<lparr>tracers := (tracers s)[this := t\<lparr>events := events t @ [JObj ev]\<rparr>]\<rparr>)))"

definition Tracer_begin :: "ref \<Rightarrow> jsval \<Rightarrow> clock \<Rightarrow> store \<Rightarrow> error + store" where
  "Tracer_begin = mkEventFunc ''B''"

definition Tracer_end :: "ref \<Rightarrow> jsval \<Rightarrow> clock \<Rightarrow> store \<Rightarrow> error + store" where
  "Tracer_end = mkEventFunc ''E''"

definition completeEvent :: "ref \<Rightarrow> jsval \<Rightarrow> clock \<Rightarrow> store \<Rightarrow> error + store" where
  "completeEvent = mkEventFunc ''X''"

definition instantEvent :: "ref \<Rightarrow> jsval \<Rightarrow> clock \<Rightarrow> store \<Rightarrow> error + store" where
  "instantEvent = mkEventFunc ''I''"

subsection \<open>Flush\<close>

fun push_all :: "ref \<Rightarrow> jsval list \<Rightarrow> store \<Rightarrow> error + store" where
  "push_all this [] s = Inr s"
| "push_all this (ev # evs) s =
     (case call_push this ev s of Inl e \<Rightarrow> Inl e | Inr s' \<Rightarrow> push_all this evs s')"

text \<open>\<open>_flush\<close>: the closing bracket, on the Tracer's own stream.\<close>

definition flush_close :: "ref \<Rightarrow> store \<Rightarrow> error + store" where
  "flush_close this s =
     (case lookup (tracers s) this of
        None \<Rightarrow> Inl Dangling
      | Some t \<Rightarrow>
          if objectMode t \<noteq> Some True then Inr (stream_push this (ChunkText '']'') s)
          else Inr s)"

definition flush :: "ref \<Rightarrow> store \<Rightarrow> error + store" where
  "flush this s =
     (case lookup (tracers s) this of
        None \<Rightarrow> Inl Dangling
      | Some t \<Rightarrow>
          if noStream t = JBool True then
            (case push_all this (events t) s of
               Inl e \<Rightarrow> Inl e
             | Inr s' \<Rightarrow> flush_close this s')
          else Inr s)"

section \<open>The Tracer of \<open>lib/trace-event.js\<close>\<close>

text \<open>
  The older source file. Its constructor validates with the four assertions of the
  package \<open>assert-plus\<close>, which is no file of the repository: \<open>accepts\<close> stands for
  "all four pass". It has no \<open>noStream\<close>, no event buffer and no \<open>flush\<close>.
\<close>

definition Tracer_constructor_js ::
    "(TracerOptions \<Rightarrow> bool) \<Rightarrow> TracerOptions \<Rightarrow> store \<Rightarrow> error + (ref \<times> store)" where
  "Tracer_constructor_js accepts opts s =
     (if \<not> accepts opts then Inl AssertionError
      else
        (case inherited_fields (opt_parent opts) s of
           Inl e \<Rightarrow> Inl e
         | Inr base \<Rightarrow>
             (let fs = merge_fields base (opt_fields opts)
              in case opt_parent opts of
                   ParentTracer r \<Rightarrow>
                     (case lookup (tracers s) r of
                        None \<Rightarrow> Inl Dangling
                      | Some pt \<Rightarrow>
                          Inr (alloc \<lparr>noStream = JUndefined, events = [],
                                      parent = ParentTracer r,
                                      fields_obj = 0, objectMode = None,
                                      push_fn = bind (push_fn pt) r,
                                      firstPush = False, pushed = []\<rparr> fs s))
                 | ParentVal v \<Rightarrow>
                     if truthy v then Inl TypeError
                     else
                       Inr (alloc \<lparr>noStream = JUndefined, events = [], parent = ParentVal v,
                                   fields_obj = 0,
                                   objectMode = Some (truthy (opt_objectMode opts)),
                                   push_fn = Unbound (if truthy (opt_objectMode opts)
                                                      then Readable_push else PushString_js),
                                   firstPush = False, pushed = []\<rparr> fs s))))"

definition child_js ::
    "(TracerOptions \<Rightarrow> bool) \<Rightarrow> ref \<Rightarrow> jsval \<Rightarrow> store \<Rightarrow> error + (ref \<times> store)" where
  "child_js accepts this flds s =
     Tracer_constructor_js accepts
       \<lparr>opt_parent = ParentTracer this, opt_fields = flds,
        opt_objectMode = JUndefined, opt_noStream = JUndefined\<rparr> s"

text \<open>
  The event of \<open>mkEventFunc\<close>: the stamp, the phase, every key of \<open>this.fields\<close>,
  then the argument. Each \<open>for (const k of Object.keys(x)) ev[k] = x[k]\<close> is the loop
  \<open>Object_assign\<close> runs.
\<close>

definition build_event_js :: "string \<Rightarrow> obj \<Rightarrow> jsval \<Rightarrow> clock \<Rightarrow> error + obj" where
  "build_event_js ph own flds c =
     (let ev = Object_assign (set_prop (evCommon c) ''ph'' (JStr ph)) (JObj own)
      in if truthy flds then
           (case flds of
              JStr name \<Rightarrow> Inr (set_prop ev ''name'' (JStr name))
            | _ \<Rightarrow>
                (let ev' = Object_assign ev flds
                 in if truthy (get_prop flds ''cat'') then
                      (case get_prop flds ''cat'' of
                         JArr xs \<Rightarrow> Inr (set_prop ev' ''cat'' (JStr (array_join xs)))
                       | _ \<Rightarrow> Inl TypeError)
                    else Inr ev'))
         else Inr ev)"

definition mkEventFunc_js :: "string \<Rightarrow> ref \<Rightarrow> jsval \<Rightarrow> clock \<Rightarrow> store \<Rightarrow> error + store" where
  "mkEventFunc_js ph this flds c s =
     (case lookup (tracers s) this of
        None \<Rightarrow> Inl Dangling
      | Some t \<Rightarrow>
          (case lookup (objects s) (fields_obj t) of
             None \<Rightarrow> Inl Dangling
           | Some own \<Rightarrow>
               (case build_event_js ph own flds c of
                  Inl e \<Rightarrow> Inl e
                | Inr ev \<Rightarrow> call_push this (JObj ev) s)))"

definition begin_js :: "ref \<Rightarrow> jsval \<Rightarrow> clock \<Rightarrow> store \<Rightarrow> error + store" where
  "begin_js = mkEventFunc_js ''b''"

definition instant_js :: "ref \<Rightarrow> jsval \<Rightarrow> clock \<Rightarrow> store \<Rightarrow> error + store" where
  "instant_js = mkEventFunc_js ''n''"

definition end_js :: "ref \<Rightarrow> jsval \<Rightarrow> clock \<Rightarrow> store \<Rightarrow> error + store" where
  "end_js = mkEventFunc_js ''e''"

section \<open>Callers\<close>

text \<open>
  A sequence of phase-method calls on one Tracer, each with its phase, its argument
  and the clock's reading. A call that throws leaves the store as it was.
\<close>

fun run_calls :: "ref \<Rightarrow> (string \<times> jsval \<times> clock) list \<Rightarrow> store \<Rightarrow> store" where
  "run_calls this [] s = s"
| "run_calls this ((ph, flds, c) # cs) s =
     (case mkEventFunc ph this flds c s of
        Inl e \<Rightarrow> run_calls this cs s
      | Inr s' \<Rightarrow> run_calls this cs s')"

fun run_calls_js :: "ref \<Rightarrow> (string \<times> jsval \<times> clock) list \<Rightarrow> store \<Rightarrow> store" where
  "run_calls_js this [] s = s"
| "run_calls_js this ((ph, flds, c) # cs) s =
     (case mkEventFunc_js ph this flds c s of
        Inl e \<Rightarrow> run_calls_js this cs s
      | Inr s' \<Rightarrow> run_calls_js this cs s')"

text \<open>
  What callers of the TypeScript source do to a store, in any order and on any Tracers:
  construct (\<open>new Tracer\<close> and \<open>child\<close> both run the constructor), call a phase
  method, call \<open>flush\<close>. A call that throws leaves the store as it was.
\<close>

datatype call = Construct TracerOptions | Phase string ref jsval clock | Flush ref

fun run_program :: "call list \<Rightarrow> store \<Rightarrow> store" where
  "run_program [] s = s"
| "run_program (Construct opts # cs) s =
     (case Tracer_constructor opts s of
        Inl e \<Rightarrow> run_program cs s
      | Inr (r, s') \<Rightarrow> run_program cs s')"
| "run_program (Phase ph this flds c # cs) s =
     (case mkEventFunc ph this flds c s of
        Inl e \<Rightarrow> run_program cs s
      | Inr s' \<Rightarrow> run_program cs s')"
| "run_program (Flush this # cs) s =
     (case flush this s of
        Inl e \<Rightarrow> run_program cs s
      | Inr s' \<Rightarrow> run_program cs s')"

text \<open>The events those calls construct, in construction order.\<close>

fun constructed :: "(string \<times> jsval \<times> clock) list \<Rightarrow> jsval list" where
  "constructed [] = []"
| "constructed ((ph, flds, c) # cs) =
     (case build_event ph flds c of
        Inl e \<Rightarrow> constructed cs
      | Inr ev \<Rightarrow> JObj ev # constructed cs)"

text \<open>The text fragments a stream received, concatenated.\<close>

fun fragments :: "chunk list \<Rightarrow> string" where
  "fragments [] = []"
| "fragments (ChunkText t # cs) = t @ fragments cs"
| "fragments (ChunkObject v # cs) = fragments cs"

section \<open>Reading JSON\<close>

text \<open>
  What a consumer does with the text of the stream: a recursive-descent reader of JSON
  (RFC 8259) into the values above. Numbers are the integers, so a fraction or an
  exponent is refused, and a \<open>\u\<close> escape is read for the one-byte characters only.
  The first argument bounds the number of nested calls; \<open>JSON_parse\<close> gives the
  length of the text, which is always enough.
\<close>

definition is_ws :: "char \<Rightarrow> bool" where
  "is_ws c = (c = CHR '' '' \<or> c = CHR 0x09 \<or> c = CHR 0x0A \<or> c = CHR 0x0D)"

definition skip_ws :: "string \<Rightarrow> string" where
  "skip_ws s = dropWhile is_ws s"

definition is_digit :: "char \<Rightarrow> bool" where
  "is_digit c = (48 \<le> (of_char c :: nat) \<and> (of_char c :: nat) \<le> 57)"

definition digit_val :: "char \<Rightarrow> nat" where
  "digit_val c = of_char c - 48"

definition nat_of_digits :: "string \<Rightarrow> nat" where
  "nat_of_digits ds = foldl (\<lambda>a c. 10 * a + digit_val c) 0 ds"

definition hex_val :: "char \<Rightarrow> nat option" where
  "hex_val c =
     (let n = (of_char c :: nat)
      in if 48 \<le> n \<and> n \<le> 57 then Some (n - 48)
         else if 97 \<le> n \<and> n \<le> 102 then Some (n - 87)
         else if 65 \<le> n \<and> n \<le> 70 then Some (n - 55)
         else None)"

definition unescape :: "char \<Rightarrow> char option" where
  "unescape e =
     (if e = CHR ''\"'' then Some (CHR ''\"'')
      else if e = CHR 0x5C then Some (CHR 0x5C)
      else if e = CHR ''/'' then Some (CHR ''/'')
      else if e = CHR ''b'' then Some (CHR 0x08)
      else if e = CHR ''f'' then Some (CHR 0x0C)
      else if e = CHR ''n'' then Some (CHR 0x0A)
      else if e = CHR ''r'' then Some (CHR 0x0D)
      else if e = CHR ''t'' then Some (CHR 0x09)
      else None)"

text \<open>The characters of a string after its opening quote, up to the closing one.\<close>

fun parse_chars :: "string \<Rightarrow> (string \<times> string) option" where
  "parse_chars [] = None"
| "parse_chars (c # cs) =
     (if c = CHR ''\"'' then Some ([], cs)
      else if c = CHR 0x5C then
        (case cs of
           [] \<Rightarrow> None
         | e # r \<Rightarrow>
             if e = CHR ''u'' then
               (case r of
                  a # b # x # y # r' \<Rightarrow>
                    (if a = CHR ''0'' \<and> b = CHR ''0'' then
                       (case (hex_val x, hex_val y) of
                          (Some h, Some l) \<Rightarrow>
                            map_option (\<lambda>(k, t). (char_of (16 * h + l) # k, t)) (parse_chars r')
                        | _ \<Rightarrow> None)
                     else None)
                | _ \<Rightarrow> None)
             else
               (case unescape e of
                  None \<Rightarrow> None
                | Some d \<Rightarrow> map_option (\<lambda>(k, t). (d # k, t)) (parse_chars r)))
      else if (of_char c :: nat) < 32 then None
      else map_option (\<lambda>(k, t). (c # k, t)) (parse_chars cs))"

definition parse_int :: "string \<Rightarrow> (int \<times> string) option" where
  "parse_int s =
     (let neg = (case s of c # r \<Rightarrow> c = CHR ''-'' | [] \<Rightarrow> False);
          r = (if neg then tl s else s);
          ds = takeWhile is_digit r;
          rest = dropWhile is_digit r
      in if ds = [] then None
         else if 1 < length ds \<and> hd ds = CHR ''0'' then None
         else if (case rest of c # t \<Rightarrow> c = CHR ''.'' \<or> c = CHR ''e'' \<or> c = CHR ''E'' | [] \<Rightarrow> False)
         then None
         else Some (if neg then - int (nat_of_digits ds) else int (nat_of_digits ds), rest))"

fun parse_value :: "nat \<Rightarrow> string \<Rightarrow> (jsval \<times> string) option"
  and parse_elements :: "nat \<Rightarrow> string \<Rightarrow> (jsval list \<times> string) option"
  and parse_members :: "nat \<Rightarrow> string \<Rightarrow> (obj \<times> string) option"
where
  "parse_value 0 s = None"
| "parse_value (Suc n) s =
     (case skip_ws s of
        [] \<Rightarrow> None
      | c # r \<Rightarrow>
          if c = CHR ''\"'' then map_option (\<lambda>(k, t). (JStr k, t)) (parse_chars r)
          else if c = CHR ''['' then
            (case skip_ws r of
               [] \<Rightarrow> None
             | d # r' \<Rightarrow>
                 if d = CHR '']'' then Some (JArr [], r')
                 else map_option (\<lambda>(xs, t). (JArr xs, t)) (parse_elements n r))
          else if c = CHR ''{'' then
            (case skip_ws r of
               [] \<Rightarrow> None
             | d # r' \<Rightarrow>
                 if d = CHR ''}'' then Some (JObj [], r')
                 else map_option (\<lambda>(kvs, t). (JObj kvs, t)) (parse_members n r))
          else if take 4 (c # r) = ''null'' then Some (JNull, drop 3 r)
          else if take 4 (c # r) = ''true'' then Some (JBool True, drop 3 r)
          else if take 5 (c # r) = ''false'' then Some (JBool False, drop 4 r)
          else map_option (\<lambda>(i, t). (JNum i, t)) (parse_int (c # r)))"
| "parse_elements 0 s = None"
| "parse_elements (Suc n) s =
     (case parse_value n s of
        None \<Rightarrow> None
      | Some (v, r) \<Rightarrow>
          (case skip_ws r of
             [] \<Rightarrow> None
           | c # r' \<Rightarrow>
               if c = CHR '','' then map_option (\<lambda>(vs, t). (v # vs, t)) (parse_elements n r')
               else if c = CHR '']'' then Some ([v], r')
               else None))"
| "parse_members 0 s = None"
| "parse_members (Suc n) s =
     (case skip_ws s of
        [] \<Rightarrow> None
      | c # r \<Rightarrow>
          if c \<noteq> CHR ''\"'' then None
          else
            (case parse_chars r of
               None \<Rightarrow> None
             | Some (k, r1) \<Rightarrow>
                 (case skip_ws r1 of
                    [] \<Rightarrow> None
                  | d # r2 \<Rightarrow>
                      if d \<noteq> CHR '':'' then None
                      else
                        (case parse_value n r2 of
                           None \<Rightarrow> None
                         | Some (v, r3) \<Rightarrow>
                             (case skip_ws r3 of
                                [] \<Rightarrow> None
                              | e # r4 \<Rightarrow>
                                  if e = CHR '','' then
                                    map_option (\<lambda>(kvs, t). ((k, v) # kvs, t)) (parse_members n r4)
                                  else if e = CHR ''}'' then Some ([(k, v)], r4)
                                  else None)))))"

definition JSON_parse :: "string \<Rightarrow> jsval option" where
  "JSON_parse s =
     (case parse_value (length s) s of
        None \<Rightarrow> None
      | Some (v, r) \<Rightarrow> if skip_ws r = [] then Some v else None)"

text \<open>
  What JSON keeps of a value: \<open>JSON.stringify\<close> writes an \<open>undefined\<close> array element
  as \<open>null\<close> and leaves out a property whose value is \<open>undefined\<close>. A value that holds
  no \<open>undefined\<close> is its own content.
\<close>

fun json_content :: "jsval \<Rightarrow> jsval" where
  "json_content (JArr xs) = JArr (map (\<lambda>x. if x = JUndefined then JNull else json_content x) xs)"
| "json_content (JObj kvs) =
     JObj (map (\<lambda>(k, v). (k, json_content v)) (filter (\<lambda>(k, v). v \<noteq> JUndefined) kvs))"
| "json_content v = v"

section \<open>Stores the library builds\<close>

text \<open>
  What holds of every store that the constructors, the phase methods and \<open>flush\<close>
  build from the empty one: every Tracer has a
  field object of its own; a Tracer with a parent was made after it and holds the
  parent's \<open>_push\<close> bound to the parent; a Tracer without one holds a function of the
  prototype.
\<close>

fun is_unbound :: "jsfun \<Rightarrow> bool" where
  "is_unbound (Unbound m) = True"
| "is_unbound (Bound r m) = False"

definition tracer_ok :: "store \<Rightarrow> nat \<Rightarrow> bool" where
  "tracer_ok s i =
     (fields_obj (tracers s ! i) < length (objects s) \<and>
      (case parent (tracers s ! i) of
         ParentTracer p \<Rightarrow> p < i \<and> push_fn (tracers s ! i) = bind (push_fn (tracers s ! p)) p
       | ParentVal v \<Rightarrow> \<not> truthy v \<and> is_unbound (push_fn (tracers s ! i))))"

definition store_inv :: "store \<Rightarrow> bool" where
  "store_inv s =
     (distinct (map fields_obj (tracers s)) \<and> list_all (tracer_ok s) [0..<length (tracers s)])"

text \<open>
  \<open>root_ancestor s t r\<close>: following the parent references from \<open>t\<close> ends at \<open>r\<close>, a
  Tracer without a parent.
\<close>

inductive root_ancestor :: "store \<Rightarrow> ref \<Rightarrow> ref \<Rightarrow> bool" for s :: store where
  root: "lookup (tracers s) t = Some tr \<Longrightarrow> parent tr = ParentVal v \<Longrightarrow> root_ancestor s t t"
| step: "lookup (tracers s) t = Some tr \<Longrightarrow> parent tr = ParentTracer p \<Longrightarrow>
         root_ancestor s p r \<Longrightarrow> root_ancestor s t r"

text \<open>
  What a run of \<open>_push\<close> calls adds to a stream, by the function \<open>_push\<close> holds and by
  whether the opening bracket is out already.
\<close>

fun frames :: "push_method \<Rightarrow> bool \<Rightarrow> jsval list \<Rightarrow> chunk list" where
  "frames m fp [] = []"
| "frames Readable_push fp (ev # evs) = ChunkObject ev # frames Readable_push fp evs"
| "frames PushString fp (ev # evs) =
     (if fp then [ChunkText ([CHR '','', CHR 0x0A] @ JSON_stringify ev)]
      else [ChunkText ''['', ChunkText (JSON_stringify ev)]) @ frames PushString True evs"
| "frames PushString_js fp (ev # evs) =
     (if fp then [ChunkText (JSON_stringify ev @ [CHR '','', CHR 0x0A])]
      else [ChunkText ''['', ChunkText (JSON_stringify ev @ [CHR '','', CHR 0x0A])])
     @ frames PushString_js True evs"

text \<open>
  A store that differs from another in streams, framing flags and buffers only.
\<close>

definition same_shape :: "store \<Rightarrow> store \<Rightarrow> bool" where
  "same_shape s s' \<longleftrightarrow>
     length (tracers s') = length (tracers s) \<and>
     (\<forall>i < length (tracers s).
        fields_obj (tracers s' ! i) = fields_obj (tracers s ! i) \<and>
        parent (tracers s' ! i) = parent (tracers s ! i) \<and>
        push_fn (tracers s' ! i) = push_fn (tracers s ! i) \<and>
        noStream (tracers s' ! i) = noStream (tracers s ! i) \<and>
        objectMode (tracers s' ! i) = objectMode (tracers s ! i)) \<and>
     length (objects s') = length (objects s)"

text \<open>What may follow a number: nothing, or a character that does not continue it.\<close>

definition ends_number :: "string \<Rightarrow> bool" where
  "ends_number rest \<longleftrightarrow>
     (case rest of [] \<Rightarrow> True
      | c # t \<Rightarrow> \<not> is_digit c \<and> c \<noteq> CHR ''.'' \<and> c \<noteq> CHR ''e'' \<and> c \<noteq> CHR ''E'')"

section \<open>Field sets on a heap\<close>

text \<open>
  The values of the sections above are immutable, which hides one thing: an object that
  two field sets hold, and that a caller changes in place. Here values are as JavaScript
  has them, primitives and references, and every object and every array is a cell of a
  heap, holding primitives and references. \<open>Object.assign\<close> and \<open>ev[k] = x[k]\<close> copy a
  reference as they copy a number, so the copy holds the same cell.
\<close>

datatype prim = PUndefined | PNull | PBool bool | PNum int | PStr string

fun val_of :: "prim \<Rightarrow> jsval" where
  "val_of PUndefined = JUndefined"
| "val_of PNull = JNull"
| "val_of (PBool b) = JBool b"
| "val_of (PNum n) = JNum n"
| "val_of (PStr s) = JStr s"

datatype hval = Prim prim | Ref ref

datatype cell = ObjectCell "(string \<times> hval) list" | ArrayCell "hval list"

type_synonym heap = "cell list"

fun truthy_h :: "hval \<Rightarrow> bool" where
  "truthy_h (Prim p) = truthy (val_of p)"
| "truthy_h (Ref a) = True"

fun nullish_h :: "hval \<Rightarrow> bool" where
  "nullish_h (Prim p) = nullish (val_of p)"
| "nullish_h (Ref a) = False"

fun cell_entries :: "cell \<Rightarrow> (string \<times> hval) list" where
  "cell_entries (ObjectCell kvs) = kvs"
| "cell_entries (ArrayCell xs) = zip (map show_nat [0..<length xs]) xs"


text \<open>
  The own enumerable properties of a value, as \<open>own_entries\<close> has them for immutable
  values. A reference to no cell of the heap is the model's \<open>Dangling\<close>.
\<close>

definition entries_h :: "heap \<Rightarrow> hval \<Rightarrow> error + (string \<times> hval) list" where
  "entries_h h v =
     (case v of
        Prim (PStr s) \<Rightarrow> Inr (zip (map show_nat [0..<length s]) (map (\<lambda>c. Prim (PStr [c])) s))
      | Prim p \<Rightarrow> Inr []
      | Ref a \<Rightarrow> (case lookup h a of None \<Rightarrow> Inl Dangling | Some c \<Rightarrow> Inr (cell_entries c)))"

definition obj_get_h :: "(string \<times> hval) list \<Rightarrow> string \<Rightarrow> hval" where
  "obj_get_h kvs k = (case map_of kvs k of Some v \<Rightarrow> v | None \<Rightarrow> Prim PUndefined)"

definition get_prop_h :: "heap \<Rightarrow> hval \<Rightarrow> string \<Rightarrow> hval" where
  "get_prop_h h v k = (case entries_h h v of Inl e \<Rightarrow> Prim PUndefined | Inr kvs \<Rightarrow> obj_get_h kvs k)"

fun set_prop_h :: "(string \<times> hval) list \<Rightarrow> string \<Rightarrow> hval \<Rightarrow> (string \<times> hval) list" where
  "set_prop_h [] k v = [(k, v)]"
| "set_prop_h ((k', v') # kvs) k v =
     (if k' = k then (k, v) # kvs else (k', v') # set_prop_h kvs k v)"

text \<open>
  \<open>Object.assign(target, source)\<close> and the loop \<open>for (const k of Object.keys(x))
  ev[k] = x[k]\<close>, on a target that is new and that only the running function holds: its
  entries are kept at hand and become a cell when the function is done with them.
\<close>

definition Object_assign_h ::
    "heap \<Rightarrow> (string \<times> hval) list \<Rightarrow> hval \<Rightarrow> error + (string \<times> hval) list" where
  "Object_assign_h h target source =
     (case entries_h h source of
        Inl e \<Rightarrow> Inl e
      | Inr kvs \<Rightarrow> Inr (fold (\<lambda>k t. set_prop_h t k (obj_get_h kvs k)) (map fst kvs) target))"

text \<open>
  \<open>String(v)\<close> of an array element: an object is \<open>[object Object]\<close> whatever it holds,
  an array is its own join. The fuel bounds the nesting of arrays; an array that holds
  itself is no value of this model.
\<close>

fun to_string_h :: "nat \<Rightarrow> heap \<Rightarrow> hval \<Rightarrow> string option" where
  "to_string_h n h (Prim p) = Some (to_string (val_of p))"
| "to_string_h 0 h (Ref a) = None"
| "to_string_h (Suc n) h (Ref a) =
     (case lookup h a of
        None \<Rightarrow> None
      | Some (ObjectCell kvs) \<Rightarrow> Some ''[object Object]''
      | Some (ArrayCell xs) \<Rightarrow>
          map_option (join_with '','')
            (those (map (\<lambda>x. if nullish_h x then Some [] else to_string_h n h x) xs)))"

definition array_join_h :: "heap \<Rightarrow> hval list \<Rightarrow> string option" where
  "array_join_h h xs =
     map_option (join_with '','')
       (those (map (\<lambda>x. if nullish_h x then Some [] else to_string_h (length h) h x) xs))"

definition is_array_h :: "heap \<Rightarrow> hval \<Rightarrow> bool" where
  "is_array_h h v =
     (case v of
        Ref a \<Rightarrow> (case lookup h a of Some (ArrayCell xs) \<Rightarrow> True | _ \<Rightarrow> False)
      | Prim p \<Rightarrow> False)"

text \<open>\<open>v.join(",")\<close>: \<open>join\<close> is a function only on an array.\<close>

definition cat_join_h :: "heap \<Rightarrow> hval \<Rightarrow> error + string" where
  "cat_join_h h v =
     (case v of
        Prim p \<Rightarrow> Inl TypeError
      | Ref a \<Rightarrow>
          (case lookup h a of
             None \<Rightarrow> Inl Dangling
           | Some (ObjectCell kvs) \<Rightarrow> Inl TypeError
           | Some (ArrayCell xs) \<Rightarrow>
               (case array_join_h h xs of None \<Rightarrow> Inl Dangling | Some t \<Rightarrow> Inr t)))"

text \<open>
  The field set the constructor of either source file makes: the parent's entries when
  the parent is truthy (\<open>parent_fields\<close> is then the value of its property \<open>fields\<close>),
  the overlay of \<open>opts.fields\<close>, the fallback and the join for \<open>cat\<close>, and for \<open>args\<close>
  the fallback, which is a new object. The new field set is the cell after the last of
  the heap, and a new \<open>args\<close> is the cell after that.
\<close>

definition constructor_fields_h :: "hval option \<Rightarrow> hval \<Rightarrow> heap \<Rightarrow> error + (ref \<times> heap)" where
  "constructor_fields_h parent_fields flds h =
     (case (case parent_fields of
              Some pv \<Rightarrow> Object_assign_h h [] pv
            | None \<Rightarrow> Inr []) of
        Inl e \<Rightarrow> Inl e
      | Inr f0 \<Rightarrow>
          (case (if truthy_h flds then Object_assign_h h f0 flds else Inr f0) of
             Inl e \<Rightarrow> Inl e
           | Inr f1 \<Rightarrow>
               (case (if \<not> truthy_h (obj_get_h f1 ''cat'')
                      then Inr (set_prop_h f1 ''cat'' (Prim (PStr ''default'')))
                      else if is_array_h h (obj_get_h f1 ''cat'')
                      then (case cat_join_h h (obj_get_h f1 ''cat'') of
                              Inl e \<Rightarrow> Inl e
                            | Inr t \<Rightarrow> Inr (set_prop_h f1 ''cat'' (Prim (PStr t))))
                      else Inr f1) of
                  Inl e \<Rightarrow> Inl e
                | Inr f2 \<Rightarrow>
                    if \<not> truthy_h (obj_get_h f2 ''args'')
                    then Inr (length h,
                              h @ [ObjectCell (set_prop_h f2 ''args'' (Ref (Suc (length h)))),
                                   ObjectCell []])
                    else Inr (length h, h @ [ObjectCell f2]))))"

definition evCommon_h :: "clock \<Rightarrow> (string \<times> hval) list" where
  "evCommon_h c =
     [(''ts'', Prim (PNum (hrtime_sec c * 1000000 + (hrtime_nsec c + 500) div 1000))),
      (''pid'', Prim (PNum (process_pid c))),
      (''tid'', Prim (PNum (process_pid c)))]"

text \<open>
  The event \<open>mkEventFunc\<close> of \<open>lib/trace-event.js\<close> builds, as \<open>build_event_js\<close> has
  it for immutable values; \<open>own\<close> is the value of \<open>this.fields\<close>, and
  \<open>Object.keys\<close> throws on \<open>null\<close> and \<open>undefined\<close>. The event is a new cell.
\<close>

definition build_event_js_h ::
    "string \<Rightarrow> hval \<Rightarrow> hval \<Rightarrow> clock \<Rightarrow> heap \<Rightarrow> error + (ref \<times> heap)" where
  "build_event_js_h ph own flds c h =
     (case (if nullish_h own then Inl TypeError
            else Object_assign_h h (set_prop_h (evCommon_h c) ''ph'' (Prim (PStr ph))) own) of
        Inl e \<Rightarrow> Inl e
      | Inr ev \<Rightarrow>
          (case (if truthy_h flds then
                   (case flds of
                      Prim (PStr name) \<Rightarrow> Inr (set_prop_h ev ''name'' (Prim (PStr name)))
                    | _ \<Rightarrow>
                        (case Object_assign_h h ev flds of
                           Inl e \<Rightarrow> Inl e
                         | Inr ev' \<Rightarrow>
                             if truthy_h (get_prop_h h flds ''cat'') then
                               (case cat_join_h h (get_prop_h h flds ''cat'') of
                                  Inl e \<Rightarrow> Inl e
                                | Inr t \<Rightarrow> Inr (set_prop_h ev' ''cat'' (Prim (PStr t))))
                             else Inr ev'))
                 else Inr ev) of
             Inl e \<Rightarrow> Inl e
           | Inr ev' \<Rightarrow> Inr (length h, h @ [ObjectCell ev'])))"

text \<open>
  What a reader of a value finds now, down to the primitives: what \<open>JSON.stringify\<close>
  writes of an event when it is pushed. The fuel bounds the nesting; \<open>visited\<close> are the
  cells the reading looks at.
\<close>

fun snapshot :: "nat \<Rightarrow> heap \<Rightarrow> hval \<Rightarrow> jsval option" where
  "snapshot n h (Prim p) = Some (val_of p)"
| "snapshot 0 h (Ref a) = None"
| "snapshot (Suc n) h (Ref a) =
     (case lookup h a of
        None \<Rightarrow> None
      | Some (ObjectCell kvs) \<Rightarrow>
          map_option JObj
            (those (map (\<lambda>kv. map_option (Pair (fst kv)) (snapshot n h (snd kv))) kvs))
      | Some (ArrayCell xs) \<Rightarrow> map_option JArr (those (map (snapshot n h) xs)))"


text \<open>A caller's \<open>o[k] = v\<close> on an object \<open>o\<close> of the heap.\<close>

definition assign :: "ref \<Rightarrow> string \<Rightarrow> hval \<Rightarrow> heap \<Rightarrow> heap" where
  "assign a k v h =
     (case lookup h a of
        Some (ObjectCell kvs) \<Rightarrow> h[a := ObjectCell (set_prop_h kvs k v)]
      | _ \<Rightarrow> h)"

section \<open>Objects: reading what was written\<close>

lemma obj_get_set_prop: "obj_get (set_prop kvs k v) k' = (if k' = k then v else obj_get kvs k')"
  by (induction kvs) (auto simp: obj_get_def)

lemma keys_set_prop: "fst ` set (set_prop kvs k v) = insert k (fst ` set kvs)"
  by (induction kvs) (auto simp: rev_image_eqI split: if_splits)

lemma obj_get_absent: "k \<notin> fst ` set kvs \<Longrightarrow> obj_get kvs k = JUndefined"
  by (simp add: obj_get_def map_of_eq_None_iff[THEN iffD2])

lemma get_prop_absent: "k \<notin> set (own_keys v) \<Longrightarrow> get_prop v k = JUndefined"
  by (simp add: get_prop_def own_keys_def obj_get_absent)

lemma obj_get_fold_set:
  "obj_get (fold (\<lambda>k t. set_prop t k (g k)) ks t) k' = (if k' \<in> set ks then g k' else obj_get t k')"
  by (induction ks arbitrary: t) (auto simp: obj_get_set_prop)

lemma keys_fold_set:
  "fst ` set (fold (\<lambda>k t. set_prop t k (g k)) ks t) = set ks \<union> fst ` set t"
proof (induction ks arbitrary: t)
  case Nil
  then show ?case by simp
next
  case (Cons a ks)
  have "fst ` set (fold (\<lambda>k t. set_prop t k (g k)) ks (set_prop t a (g a)))
        = set ks \<union> fst ` set (set_prop t a (g a))"
    by (rule Cons.IH)
  then show ?case by (simp add: keys_set_prop)
qed

lemma obj_get_assign:
  "obj_get (Object_assign t src) k = (if k \<in> set (own_keys src) then get_prop src k else obj_get t k)"
  by (simp add: Object_assign_def obj_get_fold_set)

lemma keys_assign: "fst ` set (Object_assign t src) = set (own_keys src) \<union> fst ` set t"
  unfolding Object_assign_def by (rule keys_fold_set)


lemma copy_fields_cat:
  "copy_fields flds ks ev = Inr ev' \<Longrightarrow> ''cat'' \<in> set ks \<Longrightarrow>
   \<exists>xs. get_prop flds ''cat'' = JArr xs \<and> obj_get ev' ''cat'' = JStr (array_join xs)"
proof (induction ks arbitrary: ev)
  case Nil
  then show ?case by simp
next
  case (Cons a ks)
  show ?case
  proof (cases "''cat'' \<in> set ks")
    case True
    with Cons show ?thesis by (auto split: sum.splits)
  next
    case False
    with Cons.prems have a: "a = ''cat''" by simp
    from Cons.prems(1) a obtain xs where x: "get_prop flds ''cat'' = JArr xs"
      "copy_fields flds ks (set_prop ev ''cat'' (JStr (array_join xs))) = Inr ev'"
      by (auto simp: copy_field_def split: sum.splits jsval.splits)
    have "obj_get ev' ''cat'' = obj_get (set_prop ev ''cat'' (JStr (array_join xs))) ''cat''"
    proof -
      have "\<And>e e'. copy_fields flds ks e = Inr e' \<Longrightarrow> obj_get e' ''cat'' = obj_get e ''cat''"
        using False
      proof (induction ks)
        case Nil then show ?case by simp
      next
        case (Cons b ks)
        then show ?case by (auto simp: copy_field_def obj_get_set_prop split: sum.splits if_splits)
      qed
      with x show ?thesis by blast
    qed
    with x show ?thesis by (simp add: obj_get_set_prop)
  qed
qed

lemma copy_fields_no_cat:
  "''cat'' \<notin> set ks \<Longrightarrow> \<exists>ev'. copy_fields flds ks ev = Inr ev'"
  by (induction ks arbitrary: ev) (auto simp: copy_field_def)

lemma copy_fields_cat_array:
  "get_prop flds ''cat'' = JArr xs \<Longrightarrow> \<exists>ev'. copy_fields flds ks ev = Inr ev'"
  by (induction ks arbitrary: ev) (auto simp: copy_field_def)

lemma copy_fields_cat_not_array:
  "''cat'' \<in> set ks \<Longrightarrow> \<not> isArray (get_prop flds ''cat'') \<Longrightarrow> copy_fields flds ks ev = Inl TypeError"
proof (induction ks arbitrary: ev)
  case Nil then show ?case by simp
next
  case (Cons a ks)
  then show ?case
    by (cases "get_prop flds ''cat''") (auto simp: copy_field_def split: sum.splits)
qed

lemma array_join_strings: "array_join (map JStr ss) = join_with '','' ss"
  by (simp add: array_join_def comp_def)

section \<open>Event construction: helper facts\<close>

lemma of_char_digit: "d < 10 \<Longrightarrow> (of_char (digit_char d) :: nat) = 48 + d"
  by (simp add: digit_char_def)

lemma show_nat_digits: "c \<in> set (show_nat n) \<Longrightarrow> is_digit c"
proof (induction n arbitrary: c rule: show_nat.induct)
  case (1 n)
  show ?case
  proof (cases "n < 10")
    case True
    with "1.prems" have "c = digit_char n" by (simp add: show_nat.simps [of n])
    with True show ?thesis by (simp add: is_digit_def of_char_digit)
  next
    case False
    with "1.prems" have "c \<in> set (show_nat (n div 10)) \<or> c = digit_char (n mod 10)"
      by (auto simp: show_nat.simps [of n])
    then show ?thesis
    proof
      assume "c \<in> set (show_nat (n div 10))"
      with False "1.IH" show ?thesis by blast
    next
      assume "c = digit_char (n mod 10)"
      then show ?thesis by (simp add: is_digit_def of_char_digit)
    qed
  qed
qed

lemma show_nat_not_cat: "show_nat n \<noteq> ''cat''"
proof
  assume "show_nat n = ''cat''"
  then have "CHR ''c'' \<in> set (show_nat n)" by simp
  then have "is_digit (CHR ''c'')" by (rule show_nat_digits)
  then show False by (simp add: is_digit_def)
qed

lemma cat_key_object: "''cat'' \<in> set (own_keys flds) \<Longrightarrow> \<exists>kvs. flds = JObj kvs"
proof (cases flds)
  case (JArr xs)
  assume "''cat'' \<in> set (own_keys flds)"
  with JArr have "''cat'' \<in> set (map show_nat [0..<length xs])"
    by (auto simp: own_keys_def dest: set_zip_leftD)
  then show ?thesis using show_nat_not_cat by (metis imageE set_map)
next
  case (JStr s)
  assume "''cat'' \<in> set (own_keys flds)"
  with JStr have "''cat'' \<in> set (map show_nat [0..<length s])"
    by (auto simp: own_keys_def dest: set_zip_leftD)
  then show ?thesis using show_nat_not_cat by (metis imageE set_map)
qed (simp_all add: own_keys_def)

lemma copy_fields_untouched:
  "copy_fields flds ks ev = Inr ev' \<Longrightarrow> k \<notin> set ks \<Longrightarrow> obj_get ev' k = obj_get ev k"
proof (induction ks arbitrary: ev)
  case Nil
  then show ?case by simp
next
  case (Cons a ks)
  then show ?case
    by (auto simp: copy_field_def obj_get_set_prop split: sum.splits jsval.splits if_splits)
qed

lemma build_event_cat:
  assumes "build_event ph flds c = Inr ev"
  shows "obj_get ev ''cat'' = JUndefined \<or> (\<exists>s. obj_get ev ''cat'' = JStr s)"
proof (cases "truthy flds \<and> (\<forall>n. flds \<noteq> JStr n)")
  case False
  with assms show ?thesis
    by (auto simp: build_event_def Let_def evCommon_def obj_get_set_prop obj_get_def
        split: if_splits jsval.splits)
next
  case True
  with assms have cf: "copy_fields flds (own_keys flds) (set_prop (evCommon c) ''ph'' (JStr ph)) = Inr ev"
    by (auto simp: build_event_def Let_def split: jsval.splits)
  show ?thesis
  proof (cases "''cat'' \<in> set (own_keys flds)")
    case True
    from copy_fields_cat [OF cf True] show ?thesis by blast
  next
    case False
    have "obj_get ev ''cat'' = obj_get (set_prop (evCommon c) ''ph'' (JStr ph)) ''cat''"
      using cf False by (rule copy_fields_untouched)
    then show ?thesis by (simp add: obj_get_set_prop evCommon_def obj_get_def)
  qed
qed



lemma merge_fields_cat_list:
  "truthy f \<Longrightarrow> get_prop f ''cat'' = JArr xs \<Longrightarrow>
   obj_get (merge_fields base f) ''cat'' = JStr (array_join xs)"
proof -
  assume t: "truthy f" and g: "get_prop f ''cat'' = JArr xs"
  from g have "''cat'' \<in> set (own_keys f)" using get_prop_absent by fastforce
  with t g show ?thesis
    by (simp add: merge_fields_def Let_def obj_get_assign obj_get_set_prop)
qed

lemma merge_fields_cat_string:
  "truthy f \<Longrightarrow> get_prop f ''cat'' = JStr t \<Longrightarrow> t \<noteq> [] \<Longrightarrow>
   obj_get (merge_fields base f) ''cat'' = JStr t"
proof -
  assume t: "truthy f" and g: "get_prop f ''cat'' = JStr t" and ne: "t \<noteq> []"
  from g have "''cat'' \<in> set (own_keys f)" using get_prop_absent by fastforce
  with t g ne show ?thesis
    by (simp add: merge_fields_def Let_def obj_get_assign obj_get_set_prop)
qed




lemma build_event_js_base:
  "obj_get (Object_assign (set_prop (evCommon c) ''ph'' (JStr ph)) (JObj own)) k =
     (if k \<in> fst ` set own then obj_get own k
      else obj_get (set_prop (evCommon c) ''ph'' (JStr ph)) k)"
  by (simp add: obj_get_assign own_keys_def get_prop_def)



lemma build_event_js_falsy:
  "\<not> truthy flds \<Longrightarrow>
   build_event_js ph own flds c = Inr (Object_assign (set_prop (evCommon c) ''ph'' (JStr ph)) (JObj own))"
  by (simp add: build_event_js_def Let_def)

lemma build_event_js_string:
  "n \<noteq> [] \<Longrightarrow>
   build_event_js ph own (JStr n) c =
     Inr (set_prop (Object_assign (set_prop (evCommon c) ''ph'' (JStr ph)) (JObj own)) ''name'' (JStr n))"
  by (simp add: build_event_js_def Let_def)


lemma keys_stamp:
  "fst ` set (set_prop (evCommon c) ''ph'' (JStr ph)) = {''ts'', ''pid'', ''tid'', ''ph''}"
  by (auto simp: evCommon_def)

section \<open>The store: helper facts\<close>

lemma lookup_Some: "lookup xs i = Some x \<longleftrightarrow> i < length xs \<and> xs ! i = x"
  by (auto simp: lookup_def)

lemma lookup_None: "lookup xs i = None \<longleftrightarrow> length xs \<le> i"
  by (auto simp: lookup_def)

lemma store_inv_empty: "store_inv empty_store"
  by (simp add: store_inv_def empty_store_def)

lemma store_inv_iff:
  "store_inv s \<longleftrightarrow> distinct (map fields_obj (tracers s)) \<and> (\<forall>i < length (tracers s). tracer_ok s i)"
  by (auto simp: store_inv_def list_all_iff)

text \<open>Pushing to a stream changes that Tracer's \<open>pushed\<close> and nothing else.\<close>

lemma stream_push_simps:
  "objects (stream_push r c s) = objects s"
  "length (tracers (stream_push r c s)) = length (tracers s)"
  "i \<noteq> r \<Longrightarrow> tracers (stream_push r c s) ! i = tracers s ! i"
  "r < length (tracers s) \<Longrightarrow>
     tracers (stream_push r c s) ! r = (tracers s ! r)\<lparr>pushed := pushed (tracers s ! r) @ [c]\<rparr>"
  by (simp_all add: stream_push_def)

lemma set_firstPush_simps:
  "objects (set_firstPush r s) = objects s"
  "length (tracers (set_firstPush r s)) = length (tracers s)"
  "i \<noteq> r \<Longrightarrow> tracers (set_firstPush r s) ! i = tracers s ! i"
  "r < length (tracers s) \<Longrightarrow>
     tracers (set_firstPush r s) ! r = (tracers s ! r)\<lparr>firstPush := True\<rparr>"
  by (simp_all add: set_firstPush_def)

lemma same_shape_refl: "same_shape s s"
  by (simp add: same_shape_def)

lemma same_shape_trans: "same_shape s s' \<Longrightarrow> same_shape s' s'' \<Longrightarrow> same_shape s s''"
  by (auto simp: same_shape_def)

lemma same_shape_inv: "same_shape s s' \<Longrightarrow> store_inv s \<Longrightarrow> store_inv s'"
proof -
  assume sh: "same_shape s s'" and inv: "store_inv s"
  have m: "map fields_obj (tracers s') = map fields_obj (tracers s)"
    using sh by (auto simp: same_shape_def intro: nth_equalityI)
  have "\<And>i. i < length (tracers s) \<Longrightarrow> tracer_ok s i \<Longrightarrow> tracer_ok s' i"
    using sh by (auto simp: same_shape_def tracer_ok_def split: parent_opt.splits)
  with inv sh m show ?thesis by (auto simp: store_inv_iff same_shape_def)
qed

lemma same_shape_stream_push: "same_shape s (stream_push r c s)"
  by (cases "r < length (tracers s)") (auto simp: same_shape_def stream_push_def nth_list_update)

lemma same_shape_set_firstPush: "same_shape s (set_firstPush r s)"
  by (cases "r < length (tracers s)") (auto simp: same_shape_def set_firstPush_def nth_list_update)

lemma same_shape_first_push:
  "same_shape s (stream_push r c2 (set_firstPush r (stream_push r c1 s)))"
  by (meson same_shape_trans same_shape_stream_push same_shape_set_firstPush)

lemma same_shape_apply_method: "apply_method m r ev s = Inr s' \<Longrightarrow> same_shape s s'"
  by (cases m)
     (auto simp: apply_method_def pushString_def pushString_js_def
           split: option.splits if_splits
           intro: same_shape_stream_push same_shape_first_push)

lemma same_shape_call_push: "call_push t ev s = Inr s' \<Longrightarrow> same_shape s s'"
  by (auto simp: call_push_def split: option.splits jsfun.splits dest: same_shape_apply_method)

lemma same_shape_push_all: "push_all t evs s = Inr s' \<Longrightarrow> same_shape s s'"
proof (induction evs arbitrary: s)
  case Nil
  then show ?case by (simp add: same_shape_refl)
next
  case (Cons ev evs)
  then show ?case
    by (auto split: sum.splits dest: same_shape_call_push intro: same_shape_trans)
qed

lemma same_shape_buffer:
  "t < length (tracers s) \<Longrightarrow>
   same_shape s (s\<lparr>tracers := (tracers s)[t := (tracers s ! t)\<lparr>events := evs\<rparr>]\<rparr>)"
  by (auto simp: same_shape_def nth_list_update)

lemma same_shape_mkEventFunc: "mkEventFunc ph t flds c s = Inr s' \<Longrightarrow> same_shape s s'"
  by (auto simp: mkEventFunc_def lookup_Some split: sum.splits option.splits if_splits
      dest: same_shape_call_push intro: same_shape_buffer)

lemma same_shape_mkEventFunc_js: "mkEventFunc_js ph t flds c s = Inr s' \<Longrightarrow> same_shape s s'"
  by (auto simp: mkEventFunc_js_def split: sum.splits option.splits dest: same_shape_call_push)

lemma same_shape_flush: "flush t s = Inr s' \<Longrightarrow> same_shape s s'"
  by (auto simp: flush_def flush_close_def split: option.splits if_splits sum.splits
      dest!: same_shape_push_all intro: same_shape_refl same_shape_trans same_shape_stream_push)

lemma alloc_simps:
  "fst (alloc t fs s) = length (tracers s)"
  "tracers (snd (alloc t fs s)) = tracers s @ [t\<lparr>fields_obj := length (objects s)\<rparr>]"
  "objects (snd (alloc t fs s)) = objects s @ [fs]"
  by (simp_all add: alloc_def)

text \<open>What a constructor that returns has done: one Tracer and one field object more.\<close>

lemma store_inv_alloc:
  assumes inv: "store_inv s"
    and par: "case parent t of
                ParentTracer p \<Rightarrow> p < length (tracers s) \<and> push_fn t = bind (push_fn (tracers s ! p)) p
              | ParentVal v \<Rightarrow> \<not> truthy v \<and> is_unbound (push_fn t)"
  shows "store_inv (snd (alloc t fs s))"
proof -
  let ?s' = "snd (alloc t fs s)"
  let ?n = "length (tracers s)"
  have old: "\<And>i. i < ?n \<Longrightarrow> tracers ?s' ! i = tracers s ! i"
    by (simp add: alloc_simps nth_append)
  have new: "tracers ?s' ! ?n = t\<lparr>fields_obj := length (objects s)\<rparr>"
    by (simp add: alloc_simps)
  have bound: "\<And>i. i < ?n \<Longrightarrow> fields_obj (tracers s ! i) < length (objects s)"
    using inv by (simp add: store_inv_iff tracer_ok_def)
  have d: "distinct (map fields_obj (tracers ?s'))"
  proof -
    have "length (objects s) \<notin> fields_obj ` set (tracers s)"
    proof
      assume "length (objects s) \<in> fields_obj ` set (tracers s)"
      then obtain i where "i < ?n" "fields_obj (tracers s ! i) = length (objects s)"
        by (auto simp: in_set_conv_nth)
      with bound [of i] show False by simp
    qed
    with inv show ?thesis by (simp add: alloc_simps store_inv_iff)
  qed
  have ok: "\<And>i. i < length (tracers ?s') \<Longrightarrow> tracer_ok ?s' i"
  proof -
    fix i assume "i < length (tracers ?s')"
    then have "i < ?n \<or> i = ?n" by (auto simp: alloc_simps)
    then show "tracer_ok ?s' i"
    proof
      assume 1: "i < ?n"
      with inv have "tracer_ok s i" by (simp add: store_inv_iff)
      with 1 show ?thesis
        by (auto simp: tracer_ok_def old alloc_simps(3) split: parent_opt.splits)
    next
      assume 2: "i = ?n"
      with par show ?thesis
        by (auto simp: tracer_ok_def new old alloc_simps(3) split: parent_opt.splits)
    qed
  qed
  from d ok show ?thesis by (simp add: store_inv_iff)
qed

lemma Tracer_constructor_result:
  assumes "Tracer_constructor opts s = Inr (r, s')"
  shows "\<exists>t fs. alloc t fs s = (r, s') \<and> parent t = opt_parent opts \<and> events t = []
           \<and> pushed t = [] \<and> \<not> firstPush t
           \<and> noStream t = (if truthy (opt_noStream opts) then opt_noStream opts else JBool False)
           \<and> (case opt_parent opts of
                 ParentTracer p \<Rightarrow> p < length (tracers s)
                    \<and> push_fn t = bind (push_fn (tracers s ! p)) p \<and> objectMode t = None
                    \<and> fields_obj (tracers s ! p) < length (objects s)
                    \<and> fs = merge_fields (Object_assign [] (JObj (objects s ! fields_obj (tracers s ! p))))
                                        (opt_fields opts)
               | ParentVal v \<Rightarrow> \<not> truthy v
                    \<and> objectMode t = Some (truthy (opt_objectMode opts))
                    \<and> push_fn t = Unbound (if truthy (opt_objectMode opts) then Readable_push else PushString)
                    \<and> fs = merge_fields [] (opt_fields opts))"
  using assms
  by (cases "opt_parent opts")
     (auto simp: Tracer_constructor_def inherited_fields_def Let_def lookup_Some
           split: if_splits option.splits sum.splits)

lemma Tracer_constructor_js_result:
  assumes "Tracer_constructor_js acc opts s = Inr (r, s')"
  shows "\<exists>t fs. alloc t fs s = (r, s') \<and> parent t = opt_parent opts \<and> events t = []
           \<and> pushed t = [] \<and> \<not> firstPush t \<and> noStream t = JUndefined
           \<and> (case opt_parent opts of
                 ParentTracer p \<Rightarrow> p < length (tracers s)
                    \<and> push_fn t = bind (push_fn (tracers s ! p)) p \<and> objectMode t = None
                    \<and> fields_obj (tracers s ! p) < length (objects s)
                    \<and> fs = merge_fields (Object_assign [] (JObj (objects s ! fields_obj (tracers s ! p))))
                                        (opt_fields opts)
               | ParentVal v \<Rightarrow> \<not> truthy v
                    \<and> objectMode t = Some (truthy (opt_objectMode opts))
                    \<and> push_fn t = Unbound (if truthy (opt_objectMode opts) then Readable_push else PushString_js)
                    \<and> fs = merge_fields [] (opt_fields opts))"
  using assms
  by (cases "opt_parent opts")
     (auto simp: Tracer_constructor_js_def inherited_fields_def Let_def lookup_Some
           split: if_splits option.splits sum.splits)

lemma store_inv_Tracer_constructor:
  assumes "Tracer_constructor opts s = Inr (r, s')" and "store_inv s"
  shows "store_inv s'"
proof -
  from Tracer_constructor_result [OF assms(1)] obtain t fs where
    a: "alloc t fs s = (r, s')" and p: "parent t = opt_parent opts"
    and c: "case opt_parent opts of
                 ParentTracer p \<Rightarrow> p < length (tracers s)
                    \<and> push_fn t = bind (push_fn (tracers s ! p)) p \<and> objectMode t = None
                    \<and> fields_obj (tracers s ! p) < length (objects s)
                    \<and> fs = merge_fields (Object_assign [] (JObj (objects s ! fields_obj (tracers s ! p))))
                                        (opt_fields opts)
               | ParentVal v \<Rightarrow> \<not> truthy v
                    \<and> objectMode t = Some (truthy (opt_objectMode opts))
                    \<and> push_fn t = Unbound (if truthy (opt_objectMode opts) then Readable_push else PushString)
                    \<and> fs = merge_fields [] (opt_fields opts)"
    by blast
  from p c have "case parent t of
                ParentTracer p \<Rightarrow> p < length (tracers s) \<and> push_fn t = bind (push_fn (tracers s ! p)) p
              | ParentVal v \<Rightarrow> \<not> truthy v \<and> is_unbound (push_fn t)"
    by (auto split: parent_opt.splits)
  from store_inv_alloc [OF assms(2) this, of fs] a show ?thesis by (metis snd_conv)
qed

lemma store_inv_Tracer_constructor_js:
  assumes "Tracer_constructor_js acc opts s = Inr (r, s')" and "store_inv s"
  shows "store_inv s'"
proof -
  from Tracer_constructor_js_result [OF assms(1)] obtain t fs where
    a: "alloc t fs s = (r, s')" and p: "parent t = opt_parent opts"
    and c: "case opt_parent opts of
                 ParentTracer p \<Rightarrow> p < length (tracers s)
                    \<and> push_fn t = bind (push_fn (tracers s ! p)) p \<and> objectMode t = None
                    \<and> fields_obj (tracers s ! p) < length (objects s)
                    \<and> fs = merge_fields (Object_assign [] (JObj (objects s ! fields_obj (tracers s ! p))))
                                        (opt_fields opts)
               | ParentVal v \<Rightarrow> \<not> truthy v
                    \<and> objectMode t = Some (truthy (opt_objectMode opts))
                    \<and> push_fn t = Unbound (if truthy (opt_objectMode opts) then Readable_push else PushString_js)
                    \<and> fs = merge_fields [] (opt_fields opts)"
    by blast
  from p c have "case parent t of
                ParentTracer p \<Rightarrow> p < length (tracers s) \<and> push_fn t = bind (push_fn (tracers s ! p)) p
              | ParentVal v \<Rightarrow> \<not> truthy v \<and> is_unbound (push_fn t)"
    by (auto split: parent_opt.splits)
  from store_inv_alloc [OF assms(2) this, of fs] a show ?thesis by (metis snd_conv)
qed

lemma root_ancestor_push:
  assumes inv: "store_inv s" and ra: "root_ancestor s t r"
  shows "t < length (tracers s) \<and> r < length (tracers s) \<and> r \<le> t
         \<and> (\<exists>v. parent (tracers s ! r) = ParentVal v)
         \<and> (\<exists>m. push_fn (tracers s ! r) = Unbound m
                \<and> (t = r \<or> push_fn (tracers s ! t) = Bound r m))"
  using ra
proof (induction rule: root_ancestor.induct)
  case (root t tr v)
  then have t: "t < length (tracers s)" "tracers s ! t = tr" by (simp_all add: lookup_Some)
  with inv have "tracer_ok s t" by (simp add: store_inv_iff)
  with t root(2) obtain m where "push_fn tr = Unbound m"
    by (cases "push_fn tr") (auto simp: tracer_ok_def)
  with t root(2) show ?case by auto
next
  case (step t tr p r)
  then have t: "t < length (tracers s)" "tracers s ! t = tr" by (simp_all add: lookup_Some)
  with inv have "tracer_ok s t" by (simp add: store_inv_iff)
  with t step(2) have pt: "p < t" "push_fn tr = bind (push_fn (tracers s ! p)) p"
    by (auto simp: tracer_ok_def)
  from step.IH obtain m where m: "push_fn (tracers s ! r) = Unbound m"
    "p = r \<or> push_fn (tracers s ! p) = Bound r m" by blast
  from m pt have "push_fn tr = Bound r m" by auto
  with step.IH t pt m show ?case by auto
qed

lemma root_ancestor_call_push:
  assumes "store_inv s" and "root_ancestor s t r"
  shows "call_push t ev s = call_push r ev s"
proof -
  from root_ancestor_push [OF assms] obtain m where
    l: "t < length (tracers s)" "r < length (tracers s)"
    and m: "push_fn (tracers s ! r) = Unbound m" "t = r \<or> push_fn (tracers s ! t) = Bound r m"
    by blast
  then show ?thesis by (auto simp: call_push_def lookup_def)
qed

lemma firstPush_idem: "firstPush t \<Longrightarrow> t\<lparr>firstPush := True\<rparr> = t"
  by simp

lemma firstPush_same: "t\<lparr>firstPush := firstPush t\<rparr> = t"
  by simp

text \<open>The closed form of a run of pushes through a Tracer without a parent.\<close>

lemma call_push_root:
  assumes "r < length (tracers s)" and "push_fn (tracers s ! r) = Unbound m"
  shows "call_push r ev s =
     Inr (s\<lparr>tracers := (tracers s)[r := (tracers s ! r)
            \<lparr>firstPush := firstPush (tracers s ! r) \<or> m \<noteq> Readable_push,
             pushed := pushed (tracers s ! r) @ frames m (firstPush (tracers s ! r)) [ev]\<rparr>]\<rparr>)"
  using assms
  by (cases m)
     (auto simp: call_push_def lookup_def apply_method_def pushString_def pushString_js_def
        stream_push_def set_firstPush_def firstPush_idem)

lemma frames_append:
  "frames m fp (xs @ ys) = frames m fp xs @ frames m (fp \<or> (xs \<noteq> [] \<and> m \<noteq> Readable_push)) ys"
proof (induction xs arbitrary: fp)
  case Nil
  then show ?case by simp
next
  case (Cons x xs)
  show ?case
  proof (cases m)
    case Readable_push
    have "\<And>b. frames Readable_push b ys = frames Readable_push fp ys"
      by (induction ys) auto
    with Cons Readable_push show ?thesis by simp
  next
    case PushString
    with Cons [of True] show ?thesis by simp
  next
    case PushString_js
    with Cons [of True] show ?thesis by simp
  qed
qed

lemma push_all_root:
  assumes "r < length (tracers s)" and "push_fn (tracers s ! r) = Unbound m"
  shows "push_all r evs s =
     Inr (s\<lparr>tracers := (tracers s)[r := (tracers s ! r)
            \<lparr>firstPush := firstPush (tracers s ! r) \<or> (evs \<noteq> [] \<and> m \<noteq> Readable_push),
             pushed := pushed (tracers s ! r) @ frames m (firstPush (tracers s ! r)) evs\<rparr>]\<rparr>)"
  using assms
proof (induction evs arbitrary: s)
  case Nil
  then show ?case by simp
next
  case (Cons ev evs)
  let ?s1 = "s\<lparr>tracers := (tracers s)[r := (tracers s ! r)
            \<lparr>firstPush := firstPush (tracers s ! r) \<or> m \<noteq> Readable_push,
             pushed := pushed (tracers s ! r) @ frames m (firstPush (tracers s ! r)) [ev]\<rparr>]\<rparr>"
  have c: "call_push r ev s = Inr ?s1" using Cons.prems by (rule call_push_root)
  have l: "r < length (tracers ?s1)" "push_fn (tracers ?s1 ! r) = Unbound m"
    using Cons.prems by simp_all
  have fr: "frames m (firstPush (tracers s ! r)) (ev # evs) =
      frames m (firstPush (tracers s ! r)) [ev] @
      frames m (firstPush (tracers s ! r) \<or> m \<noteq> Readable_push) evs"
    using frames_append [of m "firstPush (tracers s ! r)" "[ev]" evs] by simp
  show ?case
    using Cons.prems by (simp add: c Cons.IH [OF l] fr) 
qed

lemma root_ancestor_extend:
  assumes "root_ancestor s t r" and "tracers s' = tracers s @ ts"
  shows "root_ancestor s' t r"
  using assms(1)
proof (induction rule: root_ancestor.induct)
  case (root t tr v)
  then have "lookup (tracers s') t = Some tr"
    using assms(2) by (auto simp: lookup_def nth_append split: if_splits)
  then show ?case using root(2) by (rule root_ancestor.root)
next
  case (step t tr p r)
  then have "lookup (tracers s') t = Some tr"
    using assms(2) by (auto simp: lookup_def nth_append split: if_splits)
  then show ?case using step(2) step.IH by (rule root_ancestor.step)
qed

lemma child_root_ancestor:
  assumes inv: "store_inv s" and ra: "root_ancestor s t r"
    and al: "alloc nt fs s = (c, s')" and par: "parent nt = ParentTracer t"
  shows "root_ancestor s' c r"
proof -
  from al have ts: "tracers s' = tracers s @ [nt\<lparr>fields_obj := length (objects s)\<rparr>]"
    and c: "c = length (tracers s)"
    by (auto simp: alloc_def)
  from ra ts have r1: "root_ancestor s' t r" by (rule root_ancestor_extend)
  from ts c have "lookup (tracers s') c = Some (nt\<lparr>fields_obj := length (objects s)\<rparr>)"
    by (simp add: lookup_def)
  moreover have "parent (nt\<lparr>fields_obj := length (objects s)\<rparr>) = ParentTracer t"
    using par by simp
  ultimately show ?thesis using r1 by (rule root_ancestor.step)
qed

lemma store_inv_new_Tracer:
  "new_Tracer opts s = Inr (r, s') \<Longrightarrow> store_inv s \<Longrightarrow> store_inv s'"
  by (auto simp: new_Tracer_def split: if_splits dest: store_inv_Tracer_constructor)

text \<open>Delivery never reads a field object.\<close>

lemma stream_push_objects:
  "stream_push r c (s\<lparr>objects := os\<rparr>) = (stream_push r c s)\<lparr>objects := os\<rparr>"
  by (simp add: stream_push_def)

lemma set_firstPush_objects:
  "set_firstPush r (s\<lparr>objects := os\<rparr>) = (set_firstPush r s)\<lparr>objects := os\<rparr>"
  by (simp add: set_firstPush_def)

lemma apply_method_objects:
  "apply_method m r ev (s\<lparr>objects := os\<rparr>) =
     (case apply_method m r ev s of Inl e \<Rightarrow> Inl e | Inr s' \<Rightarrow> Inr (s'\<lparr>objects := os\<rparr>))"
  by (cases m)
     (auto simp: apply_method_def pushString_def pushString_js_def stream_push_objects
        set_firstPush_objects split: option.splits)

lemma call_push_objects:
  "call_push t ev (s\<lparr>objects := os\<rparr>) =
     (case call_push t ev s of Inl e \<Rightarrow> Inl e | Inr s' \<Rightarrow> Inr (s'\<lparr>objects := os\<rparr>))"
  by (auto simp: call_push_def apply_method_objects split: option.splits jsfun.splits)

lemma mkEventFunc_objects:
  "mkEventFunc ph t flds c (s\<lparr>objects := os\<rparr>) =
     (case mkEventFunc ph t flds c s of Inl e \<Rightarrow> Inl e | Inr s' \<Rightarrow> Inr (s'\<lparr>objects := os\<rparr>))"
  by (auto simp: mkEventFunc_def call_push_objects split: option.splits sum.splits)

lemma child_js_made:
  assumes ch: "child_js acc p cf s = Inr (c, s')" and inv: "store_inv s"
  shows "store_inv s' \<and> c < length (tracers s') \<and> parent (tracers s' ! c) = ParentTracer p
     \<and> objects s' ! fields_obj (tracers s' ! c) =
          merge_fields (Object_assign [] (JObj (objects s ! fields_obj (tracers s ! p)))) cf"
proof -
  from ch have tc: "Tracer_constructor_js acc
       \<lparr>opt_parent = ParentTracer p, opt_fields = cf,
        opt_objectMode = JUndefined, opt_noStream = JUndefined\<rparr> s = Inr (c, s')"
    by (simp add: child_js_def)
  have i': "store_inv s'" using tc inv by (rule store_inv_Tracer_constructor_js)
  from Tracer_constructor_js_result [OF tc] obtain nt fs where
    a: "alloc nt fs s = (c, s')" and pn: "parent nt = ParentTracer p"
    and fs: "fs = merge_fields (Object_assign [] (JObj (objects s ! fields_obj (tracers s ! p)))) cf"
    by auto
  from a have "c = length (tracers s)"
    "tracers s' = tracers s @ [nt\<lparr>fields_obj := length (objects s)\<rparr>]"
    "objects s' = objects s @ [fs]"
    by (auto simp: alloc_def)
  with pn fs i' show ?thesis by simp
qed

text \<open>The closed form of \<open>flush\<close> on a buffering Tracer without a parent.\<close>

lemma flush_root:
  assumes r: "r < length (tracers s)" and m: "push_fn (tracers s ! r) = Unbound m"
    and ns: "noStream (tracers s ! r) = JBool True"
  shows "flush r s =
     Inr (s\<lparr>tracers := (tracers s)[r := (tracers s ! r)
            \<lparr>firstPush := firstPush (tracers s ! r) \<or> (events (tracers s ! r) \<noteq> [] \<and> m \<noteq> Readable_push),
             pushed := pushed (tracers s ! r)
                @ frames m (firstPush (tracers s ! r)) (events (tracers s ! r))
                @ (if objectMode (tracers s ! r) \<noteq> Some True then [ChunkText '']''] else [])\<rparr>]\<rparr>)"
  using r ns
  by (simp add: flush_def lookup_def push_all_root [OF r m] flush_close_def stream_push_def)

lemma flush_streaming:
  "noStream (tracers s ! r) \<noteq> JBool True \<Longrightarrow> r < length (tracers s) \<Longrightarrow> flush r s = Inr s"
  by (simp add: flush_def lookup_def)

lemma child_made:
  assumes ch: "child p cf s = Inr (c, s')" and inv: "store_inv s"
  shows "\<exists>nt. store_inv s' \<and> c = length (tracers s) \<and> p < length (tracers s)
     \<and> tracers s' = tracers s @ [nt]
     \<and> parent nt = ParentTracer p
     \<and> noStream nt = JBool False
     \<and> events nt = []
     \<and> push_fn nt = bind (push_fn (tracers s ! p)) p
     \<and> fields_obj nt = length (objects s)
     \<and> objects s' = objects s @
          [merge_fields (Object_assign [] (JObj (objects s ! fields_obj (tracers s ! p)))) cf]"
proof -
  from ch have tc: "Tracer_constructor
       \<lparr>opt_parent = ParentTracer p, opt_fields = cf,
        opt_objectMode = JUndefined, opt_noStream = JUndefined\<rparr> s = Inr (c, s')"
    by (simp add: child_def)
  have i': "store_inv s'" using tc inv by (rule store_inv_Tracer_constructor)
  from Tracer_constructor_result [OF tc] obtain nt fs where
    a: "alloc nt fs s = (c, s')" and pn: "parent nt = ParentTracer p"
    and ev: "events nt = []" and ns: "noStream nt = JBool False"
    and pl: "p < length (tracers s)" and pf: "push_fn nt = bind (push_fn (tracers s ! p)) p"
    and fs: "fs = merge_fields (Object_assign [] (JObj (objects s ! fields_obj (tracers s ! p)))) cf"
    by auto
  from a have "c = length (tracers s)"
    "tracers s' = tracers s @ [nt\<lparr>fields_obj := length (objects s)\<rparr>]"
    "objects s' = objects s @ [fs]"
    by (auto simp: alloc_def)
  with pn fs i' ev ns pl pf show ?thesis by simp
qed

text \<open>The definitions a run on a concrete store unfolds.\<close>

lemmas eval_defs = new_Tracer_def Tracer_constructor_def options_of_def get_prop_def
        obj_get_def inherited_fields_def merge_fields_def alloc_def empty_store_def Let_def
        child_def lookup_def Object_assign_def own_keys_def
        Tracer_begin_def mkEventFunc_def build_event_def evCommon_def copy_field_def
        call_push_def apply_method_def pushString_def stream_push_def set_firstPush_def
        flush_def flush_close_def array_join_def

section \<open>Reading back what \<open>JSON.stringify\<close> wrote\<close>

lemma show_nat_nonempty: "show_nat n \<noteq> []"
  by (subst show_nat.simps) simp

lemma digit_val_digit_char: "d < 10 \<Longrightarrow> digit_val (digit_char d) = d"
  by (simp add: digit_val_def of_char_digit)

lemma nat_of_digits_snoc: "nat_of_digits (ds @ [c]) = 10 * nat_of_digits ds + digit_val c"
  by (simp add: nat_of_digits_def)

lemma nat_of_digits_show_nat: "nat_of_digits (show_nat n) = n"
proof (induction n rule: show_nat.induct)
  case (1 n)
  show ?case
  proof (cases "n < 10")
    case True
    then show ?thesis
      by (simp add: show_nat.simps [of n] nat_of_digits_def digit_val_digit_char)
  next
    case False
    with "1.IH" have "nat_of_digits (show_nat (n div 10)) = n div 10" by simp
    with False show ?thesis
      by (simp add: show_nat.simps [of n] nat_of_digits_snoc digit_val_digit_char)
  qed
qed

lemma digit_char_zero: "d < 10 \<Longrightarrow> digit_char d = CHR ''0'' \<longleftrightarrow> d = 0"
proof -
  assume d: "d < 10"
  have "digit_char d = CHR ''0'' \<longleftrightarrow> (of_char (digit_char d) :: nat) = of_char (CHR ''0'')"
    by (metis of_char_eq_iff)
  with d show ?thesis by (simp add: of_char_digit)
qed

lemma show_nat_hd: "0 < n \<Longrightarrow> hd (show_nat n) \<noteq> CHR ''0''"
proof (induction n rule: show_nat.induct)
  case (1 n)
  show ?case
  proof (cases "n < 10")
    case True
    with "1.prems" show ?thesis by (simp add: show_nat.simps [of n] digit_char_zero)
  next
    case False
    then have "0 < n div 10" by simp
    with False "1.IH" have "hd (show_nat (n div 10)) \<noteq> CHR ''0''" by simp
    with False show ?thesis by (simp add: show_nat.simps [of n] show_nat_nonempty)
  qed
qed

lemma show_nat_leading: "1 < length (show_nat n) \<Longrightarrow> hd (show_nat n) \<noteq> CHR ''0''"
proof -
  assume l: "1 < length (show_nat n)"
  have "0 < n"
  proof (rule ccontr)
    assume "\<not> 0 < n"
    then have "n = 0" by simp
    with l show False by (simp add: show_nat.simps [of 0])
  qed
  then show ?thesis by (rule show_nat_hd)
qed

lemma takeWhile_digits:
  assumes "ends_number rest"
  shows "takeWhile is_digit (show_nat n @ rest) = show_nat n"
    and "dropWhile is_digit (show_nat n @ rest) = rest"
proof -
  have a: "\<forall>c \<in> set (show_nat n). is_digit c" using show_nat_digits by blast
  have b: "takeWhile is_digit rest = []" "dropWhile is_digit rest = rest"
    using assms by (cases rest; simp add: ends_number_def)+
  from a b show "takeWhile is_digit (show_nat n @ rest) = show_nat n"
    by (simp add: takeWhile_append2)
  from a b show "dropWhile is_digit (show_nat n @ rest) = rest"
    by (simp add: dropWhile_append2)
qed

lemma show_nat_first: "\<exists>c cs. show_nat n = c # cs \<and> is_digit c"
proof (cases "show_nat n")
  case Nil
  with show_nat_nonempty show ?thesis by blast
next
  case (Cons c cs)
  then have "c \<in> set (show_nat n)" by simp
  with Cons show ?thesis using show_nat_digits by blast
qed

lemma parse_int_show_nat:
  assumes "ends_number rest"
  shows "parse_int (show_nat n @ rest) = Some (int n, rest)"
proof -
  from show_nat_first obtain c cs where c: "show_nat n = c # cs" "is_digit c" by blast
  then have nm: "c \<noteq> CHR ''-''" by (auto simp: is_digit_def)
  have e: "\<not> (case rest of c # t \<Rightarrow> c = CHR ''.'' \<or> c = CHR ''e'' \<or> c = CHR ''E'' | [] \<Rightarrow> False)"
    using assms by (cases rest) (simp_all add: ends_number_def)
  have neg: "\<not> (case show_nat n @ rest of c # r \<Rightarrow> c = CHR ''-'' | [] \<Rightarrow> False)"
    using c nm by simp
  show ?thesis
    unfolding parse_int_def Let_def
    using neg e show_nat_leading [of n] show_nat_nonempty [of n]
    by (simp add: takeWhile_digits [OF assms] nat_of_digits_show_nat)
qed

lemma parse_int_show_int:
  assumes "ends_number rest"
  shows "parse_int (show_int i @ rest) = Some (i, rest)"
proof (cases "i < 0")
  case False
  then show ?thesis by (simp add: show_int_def parse_int_show_nat [OF assms])
next
  case True
  have e: "\<not> (case rest of c # t \<Rightarrow> c = CHR ''.'' \<or> c = CHR ''e'' \<or> c = CHR ''E'' | [] \<Rightarrow> False)"
    using assms by (cases rest) (simp_all add: ends_number_def)
  show ?thesis
    unfolding parse_int_def Let_def
    using True e show_nat_leading [of "nat (- i)"] show_nat_nonempty [of "nat (- i)"]
    by (simp add: show_int_def takeWhile_digits [OF assms] nat_of_digits_show_nat)
qed

lemma hex_val_hex_digit: "d < 16 \<Longrightarrow> hex_val (hex_digit d) = Some d"
proof -
  assume d: "d < 16"
  show ?thesis
  proof (cases "d < 10")
    case True
    then show ?thesis by (simp add: hex_val_def hex_digit_def Let_def)
  next
    case False
    with d show ?thesis by (simp add: hex_val_def hex_digit_def Let_def)
  qed
qed

lemma parse_chars_quote_char:
  "parse_chars (quote_char c @ r) = map_option (\<lambda>(k, t). (c # k, t)) (parse_chars r)"
proof -
  let ?n = "of_char c :: nat"
  consider (q) "c = CHR 0x22" | (b) "c = CHR 0x5C" | (bs) "c = CHR 0x08" | (ff) "c = CHR 0x0C"
    | (nl) "c = CHR 0x0A" | (cr) "c = CHR 0x0D" | (tab) "c = CHR 0x09"
    | (ctl) "c \<noteq> CHR 0x22" "c \<noteq> CHR 0x5C" "c \<noteq> CHR 0x08" "c \<noteq> CHR 0x0C"
        "c \<noteq> CHR 0x0A" "c \<noteq> CHR 0x0D" "c \<noteq> CHR 0x09" "?n < 32"
    | (plain) "c \<noteq> CHR 0x22" "c \<noteq> CHR 0x5C" "\<not> ?n < 32"
    by fastforce
  then show ?thesis
  proof cases
    case ctl
    have h: "hex_val (hex_digit (?n div 16)) = Some (?n div 16)"
      "hex_val (hex_digit (?n mod 16)) = Some (?n mod 16)"
      using ctl(8) by (simp_all add: hex_val_hex_digit)
    have rebuilt: "char_of (16 * (?n div 16) + ?n mod 16) = c" by simp
    show ?thesis using ctl h rebuilt by (simp add: unescape_def)
  next
    case plain
    then show ?thesis by (auto simp: unescape_def)
  qed (simp_all add: unescape_def)
qed

lemma parse_chars_quoted:
  "parse_chars (concat (map quote_char s) @ CHR 0x22 # rest) = Some (s, rest)"
proof (induction s)
  case Nil
  then show ?case by simp
next
  case (Cons c s)
  have "parse_chars (concat (map quote_char (c # s)) @ CHR 0x22 # rest)
      = parse_chars (quote_char c @ (concat (map quote_char s) @ CHR 0x22 # rest))"
    by (simp del: quote_char.simps)
  also have "\<dots> = map_option (\<lambda>(k, t). (c # k, t))
      (parse_chars (concat (map quote_char s) @ CHR 0x22 # rest))"
    by (rule parse_chars_quote_char)
  finally show ?case by (simp add: Cons.IH del: quote_char.simps)
qed

lemma parse_chars_quote: "parse_chars (tl (quote s) @ rest) = Some (s, rest)"
  using parse_chars_quoted [of s rest] by (simp add: quote_def)

lemma skip_ws_id: "\<not> is_ws c \<Longrightarrow> skip_ws (c # r) = c # r"
  by (simp add: skip_ws_def)

lemma skip_ws_append: "\<forall>c \<in> set w. is_ws c \<Longrightarrow> skip_ws (w @ s) = skip_ws s"
  by (simp add: skip_ws_def dropWhile_append2)

lemma parse_value_ws: "\<forall>c \<in> set w. is_ws c \<Longrightarrow> parse_value n (w @ s) = parse_value n s"
  by (cases n) (simp_all add: skip_ws_append)

lemma parse_elements_ws: "\<forall>c \<in> set w. is_ws c \<Longrightarrow> parse_elements n (w @ s) = parse_elements n s"
  by (cases n) (simp_all add: parse_value_ws)

lemma ends_number_simps:
  "ends_number []" "ends_number (CHR '','' # r)" "ends_number (CHR '']'' # r)"
  "ends_number (CHR ''}'' # r)"
  by (simp_all add: ends_number_def is_digit_def)

lemma show_int_first:
  "\<exists>c cs. show_int i = c # cs \<and> (c = CHR ''-'' \<or> is_digit c)"
proof (cases "i < 0")
  case True
  then show ?thesis by (simp add: show_int_def)
next
  case False
  from show_nat_first [of "nat i"] obtain c cs where "show_nat (nat i) = c # cs" "is_digit c"
    by blast
  with False show ?thesis by (simp add: show_int_def)
qed

text \<open>A number where a value is expected.\<close>

lemma parse_value_number:
  assumes "c = CHR ''-'' \<or> is_digit c"
  shows "parse_value (Suc n) (c # cs) = map_option (\<lambda>(i, t). (JNum i, t)) (parse_int (c # cs))"
proof -
  from assms have c: "\<not> is_ws c" "c \<noteq> CHR 0x22" "c \<noteq> CHR ''[''" "c \<noteq> CHR ''{''"
    "c \<noteq> CHR ''n''" "c \<noteq> CHR ''t''" "c \<noteq> CHR ''f''"
    by (auto simp: is_ws_def is_digit_def)
  then show ?thesis by (simp add: skip_ws_id)
qed

lemma parse_value_JNum:
  assumes "ends_number rest"
  shows "parse_value (Suc n) (show_int i @ rest) = Some (JNum i, rest)"
proof -
  from show_int_first obtain c cs where c: "show_int i = c # cs" "c = CHR ''-'' \<or> is_digit c"
    by blast
  have "parse_value (Suc n) (c # (cs @ rest)) =
      map_option (\<lambda>(i, t). (JNum i, t)) (parse_int (c # (cs @ rest)))"
    using c(2) by (rule parse_value_number)
  moreover have "parse_int (c # (cs @ rest)) = Some (i, rest)"
    using parse_int_show_int [OF assms, of i] c(1) by simp
  ultimately show ?thesis using c(1) by simp
qed

lemma parse_value_JStr:
  "parse_value (Suc n) (quote s @ rest) = Some (JStr s, rest)"
proof -
  have q: "quote s @ rest = CHR 0x22 # (tl (quote s) @ rest)" by (simp add: quote_def)
  have "\<And>r. parse_value (Suc n) (CHR 0x22 # r) =
      map_option (\<lambda>(k, t). (JStr k, t)) (parse_chars r)"
    by (simp add: skip_ws_def is_ws_def)
  then have "parse_value (Suc n) (quote s @ rest) =
      map_option (\<lambda>(k, t). (JStr k, t)) (parse_chars (tl (quote s) @ rest))"
    by (simp only: q)
  then show ?thesis by (simp add: parse_chars_quote)
qed

lemma parse_value_literals:
  "parse_value (Suc n) (''null'' @ rest) = Some (JNull, rest)"
  "parse_value (Suc n) (''true'' @ rest) = Some (JBool True, rest)"
  "parse_value (Suc n) (''false'' @ rest) = Some (JBool False, rest)"
  by (simp_all add: skip_ws_def is_ws_def)

lemma join_with_Cons2:
  "join_with sep (x # y # ys) = x @ sep @ join_with sep (y # ys)"
  by simp

lemma length_join_tail:
  "ys \<noteq> [] \<Longrightarrow> length (join_with sep ys) \<le> length (join_with sep (x # ys))"
  by (cases ys) simp_all

lemma length_join_head: "length x \<le> length (join_with sep (x # ys))"
  by (cases ys) simp_all

text \<open>
  The elements of an array, each read back by \<open>parse_value\<close>, separated by a comma and
  any whitespace, up to the closing bracket.
\<close>

lemma parse_elements_join:
  assumes el: "\<forall>x \<in> set xs. \<forall>n rest. length (et x) \<le> n \<longrightarrow> ends_number rest \<longrightarrow>
                 parse_value n (et x @ rest) = Some (ec x, rest)"
    and ne: "xs \<noteq> []" and ws: "\<forall>c \<in> set w. is_ws c"
    and fuel: "length (join_with (CHR '','' # w) (map et xs)) < n"
  shows "parse_elements n (join_with (CHR '','' # w) (map et xs) @ CHR '']'' # rest)
           = Some (map ec xs, rest)"
  using el ne fuel
proof (induction xs arbitrary: n)
  case Nil
  then show ?case by simp
next
  case (Cons x xs)
  from Cons.prems(3) obtain n' where n: "n = Suc n'" by (cases n) simp_all
  have elx: "\<And>n rest. length (et x) \<le> n \<Longrightarrow> ends_number rest \<Longrightarrow>
                 parse_value n (et x @ rest) = Some (ec x, rest)"
    using Cons.prems(1) by simp
  have nw: "\<not> is_ws (CHR '','')" "\<not> is_ws (CHR '']'')" by (simp_all add: is_ws_def)
  show ?case
  proof (cases xs)
    case Nil
    from Cons.prems(3) n Nil have "length (et x) \<le> n'" by simp
    then have "parse_value n' (et x @ CHR '']'' # rest) = Some (ec x, CHR '']'' # rest)"
      by (rule elx) (rule ends_number_simps)
    with Nil n nw show ?thesis by (simp add: skip_ws_id)
  next
    case (Cons y ys)
    let ?tail = "join_with (CHR '','' # w) (map et xs)"
    have jtext: "join_with (CHR '','' # w) (map et (x # xs)) = et x @ (CHR '','' # w) @ ?tail"
      using Cons by simp
    have len: "length (et x) + length w + length ?tail + 1 < n"
      using Cons.prems(3) unfolding jtext by simp
    with n have "length (et x) \<le> n'" by simp
    then have pv: "parse_value n' (et x @ CHR '','' # (w @ ?tail @ CHR '']'' # rest))
        = Some (ec x, CHR '','' # (w @ ?tail @ CHR '']'' # rest))"
      by (rule elx) (rule ends_number_simps)
    have "length ?tail < n'" using len n by simp
    with Cons.IH [of n'] Cons.prems(1) Cons
    have ih: "parse_elements n' (?tail @ CHR '']'' # rest) = Some (map ec xs, rest)" by simp
    have "parse_elements n' (w @ (?tail @ CHR '']'' # rest)) = Some (map ec xs, rest)"
      using ws ih by (simp only: parse_elements_ws)
    with pv n nw show ?thesis unfolding jtext by (simp add: skip_ws_id)
  qed
qed

lemma parse_members_join:
  assumes el: "\<forall>(k, v) \<in> set kvs. \<forall>n rest. length (JSON_stringify v) \<le> n \<longrightarrow> ends_number rest \<longrightarrow>
                 parse_value n (JSON_stringify v @ rest) = Some (json_content v, rest)"
    and ne: "kvs \<noteq> []"
    and fuel: "length (join_with '','' (map (\<lambda>(k, v). quote k @ '':'' @ JSON_stringify v) kvs)) < n"
  shows "parse_members n
           (join_with '','' (map (\<lambda>(k, v). quote k @ '':'' @ JSON_stringify v) kvs) @ CHR ''}'' # rest)
           = Some (map (\<lambda>(k, v). (k, json_content v)) kvs, rest)"
  using el ne fuel
proof (induction kvs arbitrary: n)
  case Nil
  then show ?case by simp
next
  case (Cons kv kvs)
  obtain k v where kv: "kv = (k, v)" by (cases kv)
  let ?mt = "\<lambda>(k, v). quote k @ '':'' @ JSON_stringify v"
  from Cons.prems(3) obtain n' where n: "n = Suc n'" by (cases n) simp_all
  have elv: "\<And>n rest. length (JSON_stringify v) \<le> n \<Longrightarrow> ends_number rest \<Longrightarrow>
                 parse_value n (JSON_stringify v @ rest) = Some (json_content v, rest)"
    using Cons.prems(1) kv by simp
  have nw: "\<not> is_ws (CHR '','')" "\<not> is_ws (CHR ''}'')" "\<not> is_ws (CHR '':'')" "\<not> is_ws (CHR 0x22)"
    by (simp_all add: is_ws_def)
  have q: "\<And>t. quote k @ t = CHR 0x22 # (tl (quote k) @ t)" by (simp add: quote_def)
  have step: "\<And>tail. ends_number tail \<Longrightarrow> length (JSON_stringify v) \<le> n' \<Longrightarrow>
      parse_members (Suc n') (quote k @ '':'' @ JSON_stringify v @ tail) =
        (case skip_ws tail of
           [] \<Rightarrow> None
         | e # r4 \<Rightarrow>
             if e = CHR '','' then
               map_option (\<lambda>(kvs, t). ((k, json_content v) # kvs, t)) (parse_members n' r4)
             else if e = CHR ''}'' then Some ([(k, json_content v)], r4)
             else None)"
  proof -
    fix tail
    assume a: "ends_number tail" "length (JSON_stringify v) \<le> n'"
    have pc: "parse_chars (tl (quote k) @ CHR '':'' # (JSON_stringify v @ tail))
        = Some (k, CHR '':'' # (JSON_stringify v @ tail))"
      by (rule parse_chars_quote)
    have pv: "parse_value n' (JSON_stringify v @ tail) = Some (json_content v, tail)"
      using a(2) a(1) by (rule elv)
    have "parse_members (Suc n') (CHR 0x22 # (tl (quote k) @ CHR '':'' # (JSON_stringify v @ tail))) =
        (case skip_ws tail of
           [] \<Rightarrow> None
         | e # r4 \<Rightarrow>
             if e = CHR '','' then
               map_option (\<lambda>(kvs, t). ((k, json_content v) # kvs, t)) (parse_members n' r4)
             else if e = CHR ''}'' then Some ([(k, json_content v)], r4)
             else None)"
      using nw by (simp add: skip_ws_id pc pv)
    then show "parse_members (Suc n') (quote k @ '':'' @ JSON_stringify v @ tail) =
        (case skip_ws tail of
           [] \<Rightarrow> None
         | e # r4 \<Rightarrow>
             if e = CHR '','' then
               map_option (\<lambda>(kvs, t). ((k, json_content v) # kvs, t)) (parse_members n' r4)
             else if e = CHR ''}'' then Some ([(k, json_content v)], r4)
             else None)"
      by (simp add: q)
  qed
  show ?case
  proof (cases kvs)
    case Nil
    from Cons.prems(3) n Nil kv have l: "length (JSON_stringify v) \<le> n'" by simp
    from step [OF ends_number_simps(4) l, of rest] Nil n kv nw show ?thesis
      by (simp add: skip_ws_id)
  next
    case (Cons kv2 kvs2)
    let ?tail = "join_with '','' (map ?mt kvs)"
    have jtext: "join_with '','' (map ?mt (kv # kvs)) = ?mt kv @ '','' @ ?tail"
      using Cons by simp
    have len: "length (?mt kv) + length ?tail + 1 < n"
      using Cons.prems(3) unfolding jtext by simp
    with n kv have l: "length (JSON_stringify v) \<le> n'" by simp
    have "length ?tail < n'" using len n by simp
    with Cons.IH [of n'] Cons.prems(1) Cons
    have ih: "parse_members n' (?tail @ CHR ''}'' # rest) = Some (map (\<lambda>(k, v). (k, json_content v)) kvs, rest)"
      by simp
    from step [OF ends_number_simps(2) l, of "?tail @ CHR ''}'' # rest"] ih n kv nw
    show ?thesis unfolding jtext by (simp add: skip_ws_id)
  qed
qed

lemma stringify_first:
  "v \<noteq> JUndefined \<Longrightarrow>
   \<exists>c cs. JSON_stringify v = c # cs \<and> \<not> is_ws c \<and> c \<noteq> CHR '']'' \<and> c \<noteq> CHR ''}''"
proof (cases v)
  case (JNum i)
  from show_int_first obtain c cs where "show_int i = c # cs" "c = CHR ''-'' \<or> is_digit c"
    by blast
  with JNum show ?thesis by (auto simp: is_ws_def is_digit_def)
qed (auto simp: is_ws_def quote_def)

lemma join_first:
  "t = c # cs \<Longrightarrow> \<exists>r. join_with sep (t # ts) = c # r"
  by (cases ts) simp_all

text \<open>The reader gives back the content of what \<open>JSON.stringify\<close> wrote.\<close>

lemma parse_value_stringify:
  "v \<noteq> JUndefined \<Longrightarrow> length (JSON_stringify v) \<le> n \<Longrightarrow> ends_number rest \<Longrightarrow>
   parse_value n (JSON_stringify v @ rest) = Some (json_content v, rest)"
proof (induction v arbitrary: n rest)
  case JUndefined
  then show ?case by simp
next
  case JNull
  then obtain n' where "n = Suc n'" by (cases n) simp_all
  then show ?case using parse_value_literals(1) [of n' rest] by simp
next
  case (JBool b)
  then obtain n' where "n = Suc n'" by (cases n) (simp_all split: if_splits)
  then show ?case
    using parse_value_literals(2) [of n' rest] parse_value_literals(3) [of n' rest]
    by (cases b) simp_all
next
  case (JNum i)
  from show_int_first obtain c cs where "show_int i = c # cs" by blast
  with JNum obtain n' where "n = Suc n'" by (cases n) simp_all
  with JNum show ?case using parse_value_JNum [of rest n' i] by simp
next
  case (JStr s)
  then obtain n' where "n = Suc n'" by (cases n) (simp_all add: quote_def)
  then show ?case using parse_value_JStr [of n' s rest] by simp
next
  case (JArr xs)
  let ?et = "\<lambda>x. if x = JUndefined then ''null'' else JSON_stringify x"
  let ?ec = "\<lambda>x. if x = JUndefined then JNull else json_content x"
  from JArr.prems(2) obtain n' where n: "n = Suc n'" by (cases n) simp_all
  have nw: "\<not> is_ws (CHR ''['')" "\<not> is_ws (CHR '']'')" by (simp_all add: is_ws_def)
  show ?case
  proof (cases xs)
    case Nil
    with n nw show ?thesis by (simp add: skip_ws_id)
  next
    case (Cons y ys)
    have el: "\<forall>x \<in> set xs. \<forall>n rest. length (?et x) \<le> n \<longrightarrow> ends_number rest \<longrightarrow>
                 parse_value n (?et x @ rest) = Some (?ec x, rest)"
    proof (intro ballI allI impI)
      fix x m r
      assume x: "x \<in> set xs" and m: "length (?et x) \<le> m" and r: "ends_number r"
      show "parse_value m (?et x @ r) = Some (?ec x, r)"
      proof (cases "x = JUndefined")
        case True
        with m obtain m' where "m = Suc m'" by (cases m) simp_all
        with True show ?thesis using parse_value_literals(1) [of m' r] by simp
      next
        case False
        with JArr.IH [OF x False _ r, of m] m show ?thesis by simp
      qed
    qed
    have ne: "xs \<noteq> []" using Cons by simp
    have len: "length (join_with '','' (map ?et xs)) < n'"
      using JArr.prems(2) n by simp
    have pe: "parse_elements n' (join_with '','' (map ?et xs) @ CHR '']'' # rest) = Some (map ?ec xs, rest)"
      using parse_elements_join [OF el ne _ _, of "[]" n' rest] len by simp
    have "\<exists>c cs. ?et y = c # cs \<and> \<not> is_ws c \<and> c \<noteq> CHR '']''"
    proof (cases "y = JUndefined")
      case True
      then show ?thesis by (simp add: is_ws_def)
    next
      case False
      with stringify_first [of y] show ?thesis by auto
    qed
    then obtain c cs where c: "?et y = c # cs" "\<not> is_ws c" "c \<noteq> CHR '']''" by blast
    from join_first [OF c(1), of "'',''" "map ?et ys"] obtain r where
      r: "join_with '','' (map ?et xs) = c # r" using Cons by auto
    have "parse_value (Suc n') (CHR ''['' # (c # r) @ CHR '']'' # rest)
        = map_option (\<lambda>(xs, t). (JArr xs, t)) (parse_elements n' ((c # r) @ CHR '']'' # rest))"
      using nw c(2) c(3) by (simp add: skip_ws_id)
    with pe r n show ?thesis by simp
  qed
next
  case (JObj kvs)
  let ?kvs = "filter (\<lambda>(k, v). v \<noteq> JUndefined) kvs"
  let ?mt = "\<lambda>(k, v). quote k @ '':'' @ JSON_stringify v"
  from JObj.prems(2) obtain n' where n: "n = Suc n'" by (cases n) simp_all
  have nw: "\<not> is_ws (CHR ''{'')" "\<not> is_ws (CHR ''}'')" "\<not> is_ws (CHR 0x22)" by (simp_all add: is_ws_def)
  show ?case
  proof (cases ?kvs)
    case Nil
    with n nw show ?thesis by (simp add: skip_ws_id)
  next
    case (Cons kv kvs2)
    have el: "\<forall>(k, v) \<in> set ?kvs. \<forall>n rest. length (JSON_stringify v) \<le> n \<longrightarrow> ends_number rest \<longrightarrow>
                 parse_value n (JSON_stringify v @ rest) = Some (json_content v, rest)"
    proof (intro ballI, clarify)
      fix k v m r
      assume kv: "(k, v) \<in> set ?kvs" and m: "length (JSON_stringify v) \<le> m" and r: "ends_number r"
      then have "(k, v) \<in> set kvs" "v \<noteq> JUndefined" by auto
      moreover have "v \<in> Basic_BNFs.snds (k, v)" by simp
      ultimately show "parse_value m (JSON_stringify v @ r) = Some (json_content v, r)"
        using JObj.IH m r by blast
    qed
    have ne: "?kvs \<noteq> []" using Cons by simp
    have len: "length (join_with '','' (map ?mt ?kvs)) < n'"
      using JObj.prems(2) n by simp
    have pm: "parse_members n' (join_with '','' (map ?mt ?kvs) @ CHR ''}'' # rest)
        = Some (map (\<lambda>(k, v). (k, json_content v)) ?kvs, rest)"
      using el ne len by (rule parse_members_join)
    obtain k v where kv: "kv = (k, v)" by (cases kv)
    have "?mt kv = CHR 0x22 # (tl (quote k) @ '':'' @ JSON_stringify v)"
      using kv by (simp add: quote_def)
    from join_first [OF this, of "'',''" "map ?mt kvs2"] obtain r where
      r: "join_with '','' (map ?mt ?kvs) = CHR 0x22 # r" using Cons by auto
    have "parse_value (Suc n') (CHR ''{'' # (CHR 0x22 # r) @ CHR ''}'' # rest)
        = map_option (\<lambda>(kvs, t). (JObj kvs, t)) (parse_members n' ((CHR 0x22 # r) @ CHR ''}'' # rest))"
      using nw by (simp add: skip_ws_id)
    with pm r n show ?thesis by simp
  qed
qed

lemma JSON_parse_stringify: "v \<noteq> JUndefined \<Longrightarrow> JSON_parse (JSON_stringify v) = Some (json_content v)"
  using parse_value_stringify [of v "length (JSON_stringify v)" "[]"]
  by (simp add: JSON_parse_def ends_number_simps skip_ws_def)

text \<open>The text of an array whose elements are separated by a comma and whitespace.\<close>

lemma JSON_parse_array_text:
  assumes ne: "evs \<noteq> []" and ok: "\<forall>e \<in> set evs. e \<noteq> JUndefined" and ws: "\<forall>c \<in> set w. is_ws c"
  shows "JSON_parse (''['' @ join_with (CHR '','' # w) (map JSON_stringify evs) @ '']'')
           = Some (JArr (map json_content evs))"
proof -
  let ?j = "join_with (CHR '','' # w) (map JSON_stringify evs)"
  have el: "\<forall>x \<in> set evs. \<forall>n rest. length (JSON_stringify x) \<le> n \<longrightarrow> ends_number rest \<longrightarrow>
                 parse_value n (JSON_stringify x @ rest) = Some (json_content x, rest)"
    using ok parse_value_stringify by blast
  have pe: "parse_elements (Suc (length ?j)) (?j @ CHR '']'' # []) = Some (map json_content evs, [])"
    using el ne ws by (rule parse_elements_join) simp
  obtain y ys where evs: "evs = y # ys" using ne by (cases evs) auto
  with ok have "y \<noteq> JUndefined" by simp
  from stringify_first [OF this] obtain c cs where
    c: "JSON_stringify y = c # cs" "\<not> is_ws c" "c \<noteq> CHR '']''" by blast
  from join_first [OF c(1), of "CHR '','' # w" "map JSON_stringify ys"] obtain r where
    r: "?j = c # r" using evs by auto
  have nw: "\<not> is_ws (CHR ''['')" by (simp add: is_ws_def)
  have "parse_value (Suc (Suc (length ?j))) (CHR ''['' # (c # r) @ CHR '']'' # [])
      = map_option (\<lambda>(xs, t). (JArr xs, t)) (parse_elements (Suc (length ?j)) ((c # r) @ CHR '']'' # []))"
    using nw c(2) c(3) by (simp add: skip_ws_id)
  with pe r have "parse_value (Suc (Suc (length ?j))) (''['' @ ?j @ '']'') = Some (JArr (map json_content evs), [])"
    by simp
  then show ?thesis by (simp add: JSON_parse_def skip_ws_def)
qed

lemma fragments_append: "fragments (a @ b) = fragments a @ fragments b"
  by (induction a rule: fragments.induct) simp_all

lemma join_with_concat: "join_with sep (x # xs) = x @ concat (map (\<lambda>e. sep @ e) xs)"
  by (induction xs arbitrary: x) simp_all

lemma fragments_frames_started:
  "fragments (frames PushString True evs) =
     concat (map (\<lambda>e. [CHR '','', CHR 0x0A] @ e) (map JSON_stringify evs))"
  by (induction evs) simp_all

lemma fragments_frames_fresh:
  "evs \<noteq> [] \<Longrightarrow>
   fragments (frames PushString False evs) = ''['' @ join_with [CHR '','', CHR 0x0A] (map JSON_stringify evs)"
  by (cases evs) (simp_all add: fragments_frames_started join_with_concat)

text \<open>A run of calls on a streaming Tracer without a parent is a run of pushes.\<close>

lemma run_calls_streaming:
  assumes "r < length (tracers s)" and "push_fn (tracers s ! r) = Unbound m"
    and "\<not> truthy (noStream (tracers s ! r))"
  shows "push_all r (constructed calls) s = Inr (run_calls r calls s)"
  using assms
proof (induction calls arbitrary: s)
  case Nil
  then show ?case by simp
next
  case (Cons call calls)
  obtain ph flds c where call: "call = (ph, flds, c)" by (cases call)
  show ?case
  proof (cases "build_event ph flds c")
    case (Inl e)
    then have "mkEventFunc ph r flds c s = Inl e" by (simp add: mkEventFunc_def)
    with Inl call Cons show ?thesis by simp
  next
    case (Inr ev)
    with Cons.prems have mk: "mkEventFunc ph r flds c s = call_push r (JObj ev) s"
      by (simp add: mkEventFunc_def lookup_def)
    from call_push_root [OF Cons.prems(1) Cons.prems(2), of "JObj ev"] obtain s1 where
      s1: "call_push r (JObj ev) s = Inr s1" by blast
    from same_shape_call_push [OF s1] Cons.prems
    have "r < length (tracers s1)" "push_fn (tracers s1 ! r) = Unbound m"
      "\<not> truthy (noStream (tracers s1 ! r))"
      by (simp_all add: same_shape_def)
    then have "push_all r (constructed calls) s1 = Inr (run_calls r calls s1)"
      by (rule Cons.IH)
    with Inr call mk s1 show ?thesis by simp
  qed
qed

lemma run_calls_buffering:
  assumes "r < length (tracers s)" and "truthy (noStream (tracers s ! r))"
  shows "run_calls r calls s =
     s\<lparr>tracers := (tracers s)[r := (tracers s ! r)
          \<lparr>events := events (tracers s ! r) @ constructed calls\<rparr>]\<rparr>"
  using assms
proof (induction calls arbitrary: s)
  case Nil
  then show ?case by simp
next
  case (Cons call calls)
  obtain ph flds c where call: "call = (ph, flds, c)" by (cases call)
  show ?case
  proof (cases "build_event ph flds c")
    case (Inl e)
    then have "mkEventFunc ph r flds c s = Inl e" by (simp add: mkEventFunc_def)
    with Inl call Cons show ?thesis by simp
  next
    case (Inr ev)
    let ?s1 = "s\<lparr>tracers := (tracers s)[r := (tracers s ! r)\<lparr>events := events (tracers s ! r) @ [JObj ev]\<rparr>]\<rparr>"
    from Inr Cons.prems have mk: "mkEventFunc ph r flds c s = Inr ?s1"
      by (simp add: mkEventFunc_def lookup_def)
    have "r < length (tracers ?s1)" "truthy (noStream (tracers ?s1 ! r))"
      using Cons.prems by simp_all
    then have "run_calls r calls ?s1 =
       ?s1\<lparr>tracers := (tracers ?s1)[r := (tracers ?s1 ! r)
          \<lparr>events := events (tracers ?s1 ! r) @ constructed calls\<rparr>]\<rparr>"
      by (rule Cons.IH)
    with Inr call mk Cons.prems(1) show ?thesis by simp
  qed
qed

lemma constructed_defined: "e \<in> set (constructed calls) \<Longrightarrow> e \<noteq> JUndefined"
  by (induction calls rule: constructed.induct) (auto split: sum.splits)

text \<open>More fuel never changes what the reader has read.\<close>

lemma fuel_step:
  "(\<forall>s x. parse_value n s = Some x \<longrightarrow> parse_value (Suc n) s = Some x)
   \<and> (\<forall>s y. parse_elements n s = Some y \<longrightarrow> parse_elements (Suc n) s = Some y)
   \<and> (\<forall>s z. parse_members n s = Some z \<longrightarrow> parse_members (Suc n) s = Some z)"
proof (induction n)
  case 0
  then show ?case by simp
next
  case (Suc n)
  then have v: "\<And>s x. parse_value n s = Some x \<Longrightarrow> parse_value (Suc n) s = Some x"
    and e: "\<And>s y. parse_elements n s = Some y \<Longrightarrow> parse_elements (Suc n) s = Some y"
    and m: "\<And>s z. parse_members n s = Some z \<Longrightarrow> parse_members (Suc n) s = Some z"
    by blast+
  have pv: "\<And>s x. parse_value (Suc n) s = Some x \<Longrightarrow> parse_value (Suc (Suc n)) s = Some x"
  proof -
    fix s x
    assume a: "parse_value (Suc n) s = Some x"
    show "parse_value (Suc (Suc n)) s = Some x"
    proof (cases "skip_ws s")
      case Nil
      with a show ?thesis by simp
    next
      case (Cons c r)
      consider (str) "c = CHR 0x22" | (arr) "c \<noteq> CHR 0x22" "c = CHR ''[''"
        | (obj) "c \<noteq> CHR 0x22" "c \<noteq> CHR ''[''" "c = CHR ''{''"
        | (other) "c \<noteq> CHR 0x22" "c \<noteq> CHR ''[''" "c \<noteq> CHR ''{''"
        by blast
      then show ?thesis
      proof cases
        case str
        with a Cons show ?thesis by simp
      next
        case arr
        show ?thesis
        proof (cases "skip_ws r")
          case Nil
          with a Cons arr show ?thesis by simp
        next
          case (Cons d r')
          show ?thesis
          proof (cases "d = CHR '']''")
            case True
            with a \<open>skip_ws s = c # r\<close> arr Cons show ?thesis by simp
          next
            case False
            with a \<open>skip_ws s = c # r\<close> arr Cons obtain xs t where
              "parse_elements n r = Some (xs, t)" "x = (JArr xs, t)"
              by auto
            with e [of r "(xs, t)"] False \<open>skip_ws s = c # r\<close> arr Cons show ?thesis by simp
          qed
        qed
      next
        case obj
        show ?thesis
        proof (cases "skip_ws r")
          case Nil
          with a Cons obj show ?thesis by simp
        next
          case (Cons d r')
          show ?thesis
          proof (cases "d = CHR ''}''")
            case True
            with a \<open>skip_ws s = c # r\<close> obj Cons show ?thesis by simp
          next
            case False
            with a \<open>skip_ws s = c # r\<close> obj Cons obtain kvs t where
              "parse_members n r = Some (kvs, t)" "x = (JObj kvs, t)"
              by auto
            with m [of r "(kvs, t)"] False \<open>skip_ws s = c # r\<close> obj Cons show ?thesis by simp
          qed
        qed
      next
        case other
        with a Cons show ?thesis by simp
      qed
    qed
  qed
  have pe: "\<And>s y. parse_elements (Suc n) s = Some y \<Longrightarrow> parse_elements (Suc (Suc n)) s = Some y"
  proof -
    fix s y
    assume a: "parse_elements (Suc n) s = Some y"
    then obtain v r where p: "parse_value n s = Some (v, r)"
      by (cases "parse_value n s") auto
    then have p': "parse_value (Suc n) s = Some (v, r)" by (rule v)
    show "parse_elements (Suc (Suc n)) s = Some y"
    proof (cases "skip_ws r")
      case Nil
      with a p show ?thesis by simp
    next
      case (Cons c r')
      show ?thesis
      proof (cases "c = CHR '',''")
        case True
        with a p Cons obtain vs t where "parse_elements n r' = Some (vs, t)" "y = (v # vs, t)"
          by auto
        with e [of r' "(vs, t)"] True p' Cons show ?thesis by simp
      next
        case False
        with a p p' Cons show ?thesis by (simp split: if_splits)
      qed
    qed
  qed
  have pm: "\<And>s z. parse_members (Suc n) s = Some z \<Longrightarrow> parse_members (Suc (Suc n)) s = Some z"
  proof -
    fix s z
    assume a: "parse_members (Suc n) s = Some z"
    then obtain c r where s: "skip_ws s = c # r" by (cases "skip_ws s") auto
    with a have c: "c = CHR 0x22" by (simp split: if_splits)
    from a s c obtain k r1 where k: "parse_chars r = Some (k, r1)"
      by (cases "parse_chars r") auto
    from a s c k obtain d r2 where r1: "skip_ws r1 = d # r2" by (cases "skip_ws r1") auto
    with a s c k have d: "d = CHR '':''" by (simp split: if_splits)
    from a s c k r1 d obtain v r3 where pvv: "parse_value n r2 = Some (v, r3)"
      by (cases "parse_value n r2") auto
    then have pvv': "parse_value (Suc n) r2 = Some (v, r3)" by (rule v)
    from a s c k r1 d pvv obtain e' r4 where r3: "skip_ws r3 = e' # r4"
      by (cases "skip_ws r3") auto
    show "parse_members (Suc (Suc n)) s = Some z"
    proof (cases "e' = CHR '',''")
      case True
      with a s c k r1 d pvv r3 obtain kvs t where
        "parse_members n r4 = Some (kvs, t)" "z = ((k, v) # kvs, t)"
        by auto
      with m [of r4 "(kvs, t)"] True s c k r1 d pvv' r3 show ?thesis by simp
    next
      case False
      with a s c k r1 d pvv pvv' r3 show ?thesis by (simp split: if_splits)
    qed
  qed
  from pv pe pm show ?case by blast
qed

lemma parse_value_fuel:
  "parse_value n s = Some x \<Longrightarrow> n \<le> m \<Longrightarrow> parse_value m s = Some x"
proof (induction m)
  case 0
  then show ?case by simp
next
  case (Suc m)
  show ?case
  proof (cases "n = Suc m")
    case True
    with Suc.prems show ?thesis by simp
  next
    case False
    with Suc have "parse_value m s = Some x" by simp
    then show ?thesis using fuel_step [of m] by blast
  qed
qed

text \<open>Elements that are not followed by a closing bracket are no array.\<close>

lemma parse_elements_unclosed:
  assumes el: "\<forall>x \<in> set xs. \<forall>n rest. length (et x) \<le> n \<longrightarrow> ends_number rest \<longrightarrow>
                 parse_value n (et x @ rest) = Some (ec x, rest)"
    and ne: "xs \<noteq> []" and ws: "\<forall>c \<in> set w. is_ws c"
  shows "parse_elements n (join_with (CHR '','' # w) (map et xs)) = None"
  using el ne
proof (induction xs arbitrary: n)
  case Nil
  then show ?case by simp
next
  case (Cons x xs)
  have elx: "\<And>n rest. length (et x) \<le> n \<Longrightarrow> ends_number rest \<Longrightarrow>
                 parse_value n (et x @ rest) = Some (ec x, rest)"
    using Cons.prems(1) by simp
  have read: "\<And>k rest v r. ends_number rest \<Longrightarrow> parse_value k (et x @ rest) = Some (v, r) \<Longrightarrow> r = rest"
  proof -
    fix k rest v r
    assume en: "ends_number rest" and p: "parse_value k (et x @ rest) = Some (v, r)"
    let ?m = "max k (length (et x))"
    from p have "parse_value ?m (et x @ rest) = Some (v, r)" by (rule parse_value_fuel) simp
    moreover have "parse_value ?m (et x @ rest) = Some (ec x, rest)" using en by (simp add: elx)
    ultimately show "r = rest" by simp
  qed
  have nw: "\<not> is_ws (CHR '','')" by (simp add: is_ws_def)
  show ?case
  proof (cases n)
    case 0
    then show ?thesis by simp
  next
    case (Suc n')
    show ?thesis
    proof (cases xs)
      case Nil
      show ?thesis
      proof (cases "parse_value n' (et x)")
        case None
        with Nil Suc show ?thesis by simp
      next
        case (Some vr)
        obtain v r where vr: "vr = (v, r)" by (cases vr)
        from read [of "[]" n' v r] Some vr have "r = []" by (simp add: ends_number_simps)
        with Some vr Nil Suc show ?thesis by (simp add: skip_ws_def)
      qed
    next
      case (Cons y ys)
      let ?tail = "join_with (CHR '','' # w) (map et xs)"
      have jtext: "join_with (CHR '','' # w) (map et (x # xs)) = et x @ CHR '','' # (w @ ?tail)"
        using Cons by simp
      have ih: "parse_elements n' ?tail = None"
        using Cons.IH [of n'] Cons.prems(1) Cons by simp
      have ih': "parse_elements n' (w @ ?tail) = None"
        using ws ih by (simp only: parse_elements_ws)
      show ?thesis
      proof (cases "parse_value n' (et x @ CHR '','' # (w @ ?tail))")
        case None
        with Suc show ?thesis unfolding jtext by simp
      next
        case (Some vr)
        obtain v r where vr: "vr = (v, r)" by (cases vr)
        from read [of "CHR '','' # (w @ ?tail)" n' v r] Some vr
        have "r = CHR '','' # (w @ ?tail)" by (simp add: ends_number_simps)
        with Some vr Suc ih' nw show ?thesis unfolding jtext by (simp add: skip_ws_id)
      qed
    qed
  qed
qed

lemma JSON_parse_unclosed:
  assumes ne: "evs \<noteq> []" and ok: "\<forall>e \<in> set evs. e \<noteq> JUndefined" and ws: "\<forall>c \<in> set w. is_ws c"
  shows "JSON_parse (''['' @ join_with (CHR '','' # w) (map JSON_stringify evs)) = None"
proof -
  let ?j = "join_with (CHR '','' # w) (map JSON_stringify evs)"
  have el: "\<forall>x \<in> set evs. \<forall>n rest. length (JSON_stringify x) \<le> n \<longrightarrow> ends_number rest \<longrightarrow>
                 parse_value n (JSON_stringify x @ rest) = Some (json_content x, rest)"
    using ok parse_value_stringify by blast
  have pe: "parse_elements (length ?j) ?j = None"
    using el ne ws by (rule parse_elements_unclosed)
  obtain y ys where evs: "evs = y # ys" using ne by (cases evs) auto
  with ok have "y \<noteq> JUndefined" by simp
  from stringify_first [OF this] obtain c cs where
    c: "JSON_stringify y = c # cs" "\<not> is_ws c" "c \<noteq> CHR '']''" by blast
  from join_first [OF c(1), of "CHR '','' # w" "map JSON_stringify ys"] obtain r where
    r: "?j = c # r" using evs by auto
  have nw: "\<not> is_ws (CHR ''['')" by (simp add: is_ws_def)
  have "parse_value (Suc (length ?j)) (CHR ''['' # c # r)
      = map_option (\<lambda>(xs, t). (JArr xs, t)) (parse_elements (length ?j) (c # r))"
    using nw c(2) c(3) by (simp add: skip_ws_id)
  with pe r have "parse_value (Suc (length ?j)) (''['' @ ?j) = None" by simp
  then show ?thesis by (simp add: JSON_parse_def)
qed

section \<open>Construction fails fast on invalid options\<close>

text \<open>
  The constructor that keeps \<open>this\<close> returns what the constructor of the store
  returns, and throws what it throws.
\<close>

lemma Tracer_constructor_this_result:
  "map_sum fst id (Tracer_constructor_this os s) = Tracer_constructor os s"
  by (cases "opt_parent os")
     (simp_all add: Tracer_constructor_this_def Tracer_constructor_def Let_def
        split: sum.splits option.splits)

lemma new_Tracer_this_result:
  "map_sum fst id (new_Tracer_this opts s) = new_Tracer opts s"
  by (simp add: new_Tracer_this_def new_Tracer_def Tracer_constructor_this_result)

text \<open>
  \<open>null\<close> passes the first check, for its \<open>typeof\<close> is object; reading \<open>opts.parent\<close>
  off it throws a TypeError, still before any assignment of the body.
\<close>

lemma null_options_type_error:
  "new_Tracer_this JNull s = Inl (TypeError, initializers)"
  by (simp add: new_Tracer_this_def)

text \<open>
  A parent that is an object and no Tracer passes the checks; the TypeError of
  \<open>this.parent._push.bind\<close> comes when \<open>noStream\<close>, the parent and the fields are set.
\<close>

lemma plain_object_parent_type_error:
  "Tracer_constructor_this
     \<lparr>opt_parent = ParentVal (JObj []), opt_fields = JUndefined,
      opt_objectMode = JUndefined, opt_noStream = JUndefined\<rparr> s
   = Inl (TypeError,
       initializers\<lparr>this_noStream := Some (JBool False),
                    this_parent := Some (ParentVal (JObj [])),
                    this_fields := Some [(''cat'', JStr ''default''), (''args'', JObj [])]\<rparr>)"
  by (simp add: Tracer_constructor_this_def inherited_fields_def merge_fields_def Let_def
      get_prop_def obj_get_def Object_assign_def own_keys_def)




section \<open>The category of an event\<close>

text \<open>
  C4, as amended. In the TypeScript source a \<open>cat\<close> given as a list of strings in the
  argument of a phase method is joined with a comma, in the order given, and whenever an
  event holds a \<open>cat\<close> at all it is a string. A \<open>cat\<close> that is not an array (a
  string, say) is not passed through: \<open>fields.cat.join\<close> throws a TypeError and the
  call delivers nothing. At construction and at child creation a list is joined the same
  way into the Tracer's field set, and a non-empty string is kept as it is.
\<close>

theorem cat_joined_or_refused:
  "(get_prop (JObj kvs) ''cat'' = JArr (map JStr ss) \<longrightarrow>
      (\<exists>ev. build_event ph (JObj kvs) c = Inr ev \<and> obj_get ev ''cat'' = JStr (join_with '','' ss)))
   \<and> (''cat'' \<in> set (own_keys (JObj kvs)) \<and> \<not> isArray (get_prop (JObj kvs) ''cat'') \<longrightarrow>
      mkEventFunc ph this (JObj kvs) c s = Inl TypeError)
   \<and> (build_event ph flds c = Inr ev \<longrightarrow>
      obj_get ev ''cat'' = JUndefined \<or> (\<exists>t. obj_get ev ''cat'' = JStr t))
   \<and> (truthy f \<and> get_prop f ''cat'' = JArr (map JStr ss) \<longrightarrow>
      obj_get (merge_fields base f) ''cat'' = JStr (join_with '','' ss))
   \<and> (truthy f \<and> get_prop f ''cat'' = JStr t \<and> t \<noteq> [] \<longrightarrow>
      obj_get (merge_fields base f) ''cat'' = JStr t)"
proof (intro conjI impI)
  assume g: "get_prop (JObj kvs) ''cat'' = JArr (map JStr ss)"
  then have k: "''cat'' \<in> set (own_keys (JObj kvs))" using get_prop_absent by fastforce
  from copy_fields_cat_array [OF g] obtain ev where
    e: "copy_fields (JObj kvs) (own_keys (JObj kvs)) (set_prop (evCommon c) ''ph'' (JStr ph)) = Inr ev"
    by blast
  from copy_fields_cat [OF e k] g have "obj_get ev ''cat'' = JStr (join_with '','' ss)"
    by (simp add: array_join_strings)
  with e show "\<exists>ev. build_event ph (JObj kvs) c = Inr ev \<and> obj_get ev ''cat'' = JStr (join_with '','' ss)"
    by (simp add: build_event_def)
next
  assume "''cat'' \<in> set (own_keys (JObj kvs)) \<and> \<not> isArray (get_prop (JObj kvs) ''cat'')"
  then show "mkEventFunc ph this (JObj kvs) c s = Inl TypeError"
    by (simp add: mkEventFunc_def build_event_def copy_fields_cat_not_array)
next
  assume "build_event ph flds c = Inr ev"
  then show "obj_get ev ''cat'' = JUndefined \<or> (\<exists>t. obj_get ev ''cat'' = JStr t)"
    by (rule build_event_cat)
next
  assume "truthy f \<and> get_prop f ''cat'' = JArr (map JStr ss)"
  then show "obj_get (merge_fields base f) ''cat'' = JStr (join_with '','' ss)"
    by (simp add: merge_fields_cat_list array_join_strings)
next
  assume "truthy f \<and> get_prop f ''cat'' = JStr t \<and> t \<noteq> []"
  then show "obj_get (merge_fields base f) ''cat'' = JStr t"
    by (simp add: merge_fields_cat_string)
qed

theorem cat_joined_or_refused_witness:
  "get_prop (JObj [(''cat'', JArr (map JStr [''a'', ''b''])), (''name'', JStr ''n'')]) ''cat''
     = JArr (map JStr [''a'', ''b''])
   \<and> build_event ''B'' (JObj [(''cat'', JArr (map JStr [''a'', ''b''])), (''name'', JStr ''n'')])
         \<lparr>hrtime_sec = 1, hrtime_nsec = 2500, process_pid = 7\<rparr>
       = Inr [(''ts'', JNum 1000003), (''pid'', JNum 7), (''tid'', JNum 7), (''ph'', JStr ''B''),
              (''cat'', JStr ''a,b''), (''name'', JStr ''n'')]
   \<and> mkEventFunc ''B'' 0 (JObj [(''cat'', JStr ''a'')])
         \<lparr>hrtime_sec = 1, hrtime_nsec = 2500, process_pid = 7\<rparr> empty_store = Inl TypeError
   \<and> obj_get (merge_fields [] (JObj [(''cat'', JArr (map JStr [''a'', ''b'']))])) ''cat'' = JStr ''a,b''
   \<and> obj_get (merge_fields [] (JObj [(''cat'', JStr ''a'')])) ''cat'' = JStr ''a''"
  using
    cat_joined_or_refused [of "[(''cat'', JArr (map JStr [''a'', ''b''])), (''name'', JStr ''n'')]"
      "[''a'', ''b'']" "''B''" "\<lparr>hrtime_sec = 1, hrtime_nsec = 2500, process_pid = 7\<rparr>"
      0 empty_store "JObj [(''cat'', JArr (map JStr [''a'', ''b''])), (''name'', JStr ''n'')]"
      "[(''ts'', JNum 1000003), (''pid'', JNum 7), (''tid'', JNum 7), (''ph'', JStr ''B''),
        (''cat'', JStr ''a,b''), (''name'', JStr ''n'')]"
      "JObj [(''cat'', JArr (map JStr [''a'', ''b'']))]" "[]" "''a''"]
    cat_joined_or_refused [of "[(''cat'', JStr ''a'')]"
      "[''a'', ''b'']" "''B''" "\<lparr>hrtime_sec = 1, hrtime_nsec = 2500, process_pid = 7\<rparr>"
      0 empty_store JUndefined "[]"
      "JObj [(''cat'', JStr ''a'')]" "[]" "''a''"]
  by (simp add: get_prop_def obj_get_def own_keys_def build_event_def evCommon_def copy_field_def
      array_join_def)

theorem string_cat_throws:
  "\<exists>r s. new_Tracer JUndefined empty_store = Inr (r, s)
     \<and> Tracer_begin r (JObj [(''name'', JStr ''n''), (''cat'', JStr ''foo'')])
           \<lparr>hrtime_sec = 1, hrtime_nsec = 2500, process_pid = 7\<rparr> s = Inl TypeError"
  by (simp add: new_Tracer_def Tracer_constructor_def options_of_def get_prop_def obj_get_def
      inherited_fields_def alloc_def Tracer_begin_def mkEventFunc_def build_event_def
      own_keys_def copy_field_def Let_def)

section \<open>The mandatory keys of an event\<close>




section \<open>A string for the argument of a phase method\<close>

text \<open>
  C8, as amended. A non-empty string given to a phase method of \<open>lib/trace-event.js\<close>
  becomes the \<open>name\<close> of the event; every other key holds what the Tracer's field set
  holds for it, or else the stamp (\<open>ts\<close>, \<open>pid\<close>, \<open>tid\<close>, \<open>ph\<close>), and the event
  has no key besides these. In the TypeScript source the non-empty string is the
  \<open>name\<close> as well. The empty string is falsy: the guard \<open>if (fields)\<close> skips
  it, and the event gets no \<open>name\<close> from it.
\<close>

theorem string_argument_names_event:
  assumes "n \<noteq> []"
  shows "(\<exists>ev. build_event_js ph own (JStr n) c = Inr ev
            \<and> obj_get ev ''name'' = JStr n
            \<and> (\<forall>k. k = ''name'' \<or>
                   obj_get ev k = (if k \<in> fst ` set own then obj_get own k
                                   else obj_get (set_prop (evCommon c) ''ph'' (JStr ph)) k))
            \<and> fst ` set ev = {''ts'', ''pid'', ''tid'', ''ph''} \<union> fst ` set own \<union> {''name''})
       \<and> (\<exists>ev. build_event ph (JStr n) c = Inr ev \<and> obj_get ev ''name'' = JStr n)
       \<and> build_event_js ph own (JStr []) c =
            Inr (Object_assign (set_prop (evCommon c) ''ph'' (JStr ph)) (JObj own))"
proof (intro conjI)
  let ?ev0 = "Object_assign (set_prop (evCommon c) ''ph'' (JStr ph)) (JObj own)"
  let ?ev = "set_prop ?ev0 ''name'' (JStr n)"
  have e: "build_event_js ph own (JStr n) c = Inr ?ev"
    using assms by (rule build_event_js_string)
  have g: "\<forall>k. k = ''name'' \<or>
        obj_get ?ev k = (if k \<in> fst ` set own then obj_get own k
                         else obj_get (set_prop (evCommon c) ''ph'' (JStr ph)) k)"
    by (simp add: obj_get_set_prop build_event_js_base)
  have k: "fst ` set ?ev = {''ts'', ''pid'', ''tid'', ''ph''} \<union> fst ` set own \<union> {''name''}"
  proof -
    have "fst ` set ?ev =
        insert ''name'' (set (own_keys (JObj own)) \<union> fst ` set (set_prop (evCommon c) ''ph'' (JStr ph)))"
      by (simp only: keys_set_prop keys_assign)
    then show ?thesis by (auto simp only: keys_stamp own_keys_def own_entries.simps set_map)
  qed
  from e g k show "\<exists>ev. build_event_js ph own (JStr n) c = Inr ev
            \<and> obj_get ev ''name'' = JStr n
            \<and> (\<forall>k. k = ''name'' \<or>
                   obj_get ev k = (if k \<in> fst ` set own then obj_get own k
                                   else obj_get (set_prop (evCommon c) ''ph'' (JStr ph)) k))
            \<and> fst ` set ev = {''ts'', ''pid'', ''tid'', ''ph''} \<union> fst ` set own \<union> {''name''}"
    by (simp add: obj_get_set_prop)
next
  show "\<exists>ev. build_event ph (JStr n) c = Inr ev \<and> obj_get ev ''name'' = JStr n"
    using assms by (simp add: build_event_def Let_def obj_get_set_prop)
next
  show "build_event_js ph own (JStr []) c =
            Inr (Object_assign (set_prop (evCommon c) ''ph'' (JStr ph)) (JObj own))"
    by (simp add: build_event_js_falsy)
qed

theorem string_argument_names_event_witness:
  "''n'' \<noteq> []
   \<and> build_event_js ''b'' [(''cat'', JStr ''default''), (''args'', JObj [])] (JStr ''n'')
         \<lparr>hrtime_sec = 1, hrtime_nsec = 2500, process_pid = 7\<rparr>
       = Inr [(''ts'', JNum 1000003), (''pid'', JNum 7), (''tid'', JNum 7), (''ph'', JStr ''b''),
              (''cat'', JStr ''default''), (''args'', JObj []), (''name'', JStr ''n'')]
   \<and> (\<exists>ev. build_event ''b'' (JStr ''n'')
         \<lparr>hrtime_sec = 1, hrtime_nsec = 2500, process_pid = 7\<rparr> = Inr ev
         \<and> obj_get ev ''name'' = JStr ''n'')"
  using string_argument_names_event [of "''n''" "''b''"
      "[(''cat'', JStr ''default''), (''args'', JObj [])]"
      "\<lparr>hrtime_sec = 1, hrtime_nsec = 2500, process_pid = 7\<rparr>"]
  by (simp add: build_event_js_def Object_assign_def own_keys_def get_prop_def obj_get_def
      evCommon_def Let_def)

theorem empty_string_sets_no_name:
  "\<exists>r s s'.
     Tracer_constructor_js (\<lambda>opts. True)
       \<lparr>opt_parent = ParentVal JUndefined, opt_fields = JUndefined,
        opt_objectMode = JBool True, opt_noStream = JUndefined\<rparr> empty_store = Inr (r, s)
     \<and> begin_js r (JStr [])
         \<lparr>hrtime_sec = 1, hrtime_nsec = 2500, process_pid = 7\<rparr> s = Inr s'
     \<and> pushed (tracers s' ! r) =
         [ChunkObject (JObj [(''ts'', JNum 1000003), (''pid'', JNum 7), (''tid'', JNum 7),
            (''ph'', JStr ''b''), (''cat'', JStr ''default''), (''args'', JObj [])])]"
  by (simp add: Tracer_constructor_js_def inherited_fields_def merge_fields_def alloc_def
      empty_store_def begin_js_def mkEventFunc_js_def lookup_def build_event_js_def
      Object_assign_def own_keys_def get_prop_def obj_get_def evCommon_def Let_def
      call_push_def apply_method_def stream_push_def)

section \<open>What a child's events inherit\<close>

text \<open>
  The same calls on the Tracer of \<open>lib/trace-event.js\<close>: the event of the child holds
  the parent's \<open>x\<close>, the child's \<open>cat\<close> and the child's \<open>y\<close>.
\<close>

lemma child_event_js_example:
  "\<exists>r s c s' s''.
     Tracer_constructor_js (\<lambda>opts. True)
       \<lparr>opt_parent = ParentVal JUndefined,
        opt_fields = JObj [(''cat'', JArr [JStr ''a'']), (''x'', JNum 1)],
        opt_objectMode = JBool True, opt_noStream = JUndefined\<rparr> empty_store = Inr (r, s)
     \<and> child_js (\<lambda>opts. True) r (JObj [(''cat'', JArr [JStr ''b'']), (''y'', JNum 2)]) s = Inr (c, s')
     \<and> begin_js c (JStr ''n'')
         \<lparr>hrtime_sec = 1, hrtime_nsec = 2500, process_pid = 7\<rparr> s' = Inr s''
     \<and> pushed (tracers s'' ! r) =
         [ChunkObject (JObj [(''ts'', JNum 1000003), (''pid'', JNum 7), (''tid'', JNum 7),
            (''ph'', JStr ''b''), (''cat'', JStr ''b''), (''x'', JNum 1), (''args'', JObj []),
            (''y'', JNum 2), (''name'', JStr ''n'')])]"
  by (simp add: Tracer_constructor_js_def child_js_def
      inherited_fields_def merge_fields_def alloc_def
      empty_store_def begin_js_def mkEventFunc_js_def lookup_def build_event_js_def
      Object_assign_def own_keys_def get_prop_def obj_get_def evCommon_def Let_def
      call_push_def apply_method_def stream_push_def array_join_def)

text \<open>
  C3, on the TypeScript source. The parent has the fields \<open>{cat: ["a"], x: 1}\<close>, the
  child is made with \<open>{cat: ["b"], y: 2}\<close>. The constructor merges them into the
  child's field object, \<open>cat: "b", x: 1, y: 2\<close> with the fallback \<open>args\<close>; but
  \<open>mkEventFunc\<close> never reads \<open>this.fields\<close>, and the event the child delivers holds
  the stamp, the phase and the name only.
\<close>

theorem child_event_omits_fields:
  "\<exists>r s c s' s''.
     new_Tracer (JObj [(''fields'', JObj [(''cat'', JArr [JStr ''a'']), (''x'', JNum 1)]),
                       (''objectMode'', JBool True)]) empty_store = Inr (r, s)
     \<and> child r (JObj [(''cat'', JArr [JStr ''b'']), (''y'', JNum 2)]) s = Inr (c, s')
     \<and> objects s' ! fields_obj (tracers s' ! c) =
         [(''cat'', JStr ''b''), (''x'', JNum 1), (''args'', JObj []), (''y'', JNum 2)]
     \<and> Tracer_begin c (JStr ''n'')
         \<lparr>hrtime_sec = 1, hrtime_nsec = 2500, process_pid = 7\<rparr> s' = Inr s''
     \<and> pushed (tracers s'' ! r) =
         [ChunkObject (JObj [(''ts'', JNum 1000003), (''pid'', JNum 7), (''tid'', JNum 7),
            (''ph'', JStr ''B''), (''name'', JStr ''n'')])]"
  by (simp add: new_Tracer_def options_of_def Tracer_constructor_def child_def
      inherited_fields_def merge_fields_def alloc_def
      empty_store_def Tracer_begin_def mkEventFunc_def lookup_def build_event_def
      Object_assign_def own_keys_def get_prop_def obj_get_def evCommon_def Let_def
      call_push_def apply_method_def stream_push_def array_join_def)

section \<open>Delivery goes to the root\<close>

text \<open>
  C9. In every store the library builds, a Tracer \<open>t\<close> whose parent references end at
  the Tracer \<open>r\<close> delivers through \<open>r\<close>: \<open>t._push(ev)\<close> is \<open>r._push(ev)\<close>, which
  appends to the stream of \<open>r\<close> under the framing flag of \<open>r\<close>, and so does the event of a
  phase method of \<open>t\<close>. A child of \<open>t\<close>, made by \<open>child\<close> of either source file, again
  has \<open>r\<close> for its root and delivers through it; so a grandchild writes through the
  original root.
\<close>

theorem delivery_reaches_root:
  assumes inv: "store_inv s" and ra: "root_ancestor s t r"
  shows "call_push t ev s = call_push r ev s
     \<and> (\<exists>m. push_fn (tracers s ! r) = Unbound m
          \<and> call_push r ev s =
              Inr (s\<lparr>tracers := (tracers s)[r := (tracers s ! r)
                 \<lparr>firstPush := firstPush (tracers s ! r) \<or> m \<noteq> Readable_push,
                  pushed := pushed (tracers s ! r) @ frames m (firstPush (tracers s ! r)) [ev]\<rparr>]\<rparr>))
     \<and> (\<forall>ph flds c e. build_event ph flds c = Inr e \<and> \<not> truthy (noStream (tracers s ! t)) \<longrightarrow>
            mkEventFunc ph t flds c s = call_push r (JObj e) s)
     \<and> (\<forall>ph flds c e.
            build_event_js ph (objects s ! fields_obj (tracers s ! t)) flds c = Inr e \<longrightarrow>
            mkEventFunc_js ph t flds c s = call_push r (JObj e) s)
     \<and> (\<forall>flds c s'. child t flds s = Inr (c, s') \<longrightarrow>
            store_inv s' \<and> root_ancestor s' c r \<and> call_push c ev s' = call_push r ev s')
     \<and> (\<forall>acc flds c s'. child_js acc t flds s = Inr (c, s') \<longrightarrow>
            store_inv s' \<and> root_ancestor s' c r \<and> call_push c ev s' = call_push r ev s')"
proof -
  have p1: "call_push t ev s = call_push r ev s"
    using inv ra by (rule root_ancestor_call_push)
  from root_ancestor_push [OF inv ra] obtain m where
    m: "r < length (tracers s)" "push_fn (tracers s ! r) = Unbound m" and t: "t < length (tracers s)"
    by blast
  have p2: "\<exists>m. push_fn (tracers s ! r) = Unbound m
          \<and> call_push r ev s =
              Inr (s\<lparr>tracers := (tracers s)[r := (tracers s ! r)
                 \<lparr>firstPush := firstPush (tracers s ! r) \<or> m \<noteq> Readable_push,
                  pushed := pushed (tracers s ! r) @ frames m (firstPush (tracers s ! r)) [ev]\<rparr>]\<rparr>)"
    using m call_push_root by blast
  have p3: "\<forall>ph flds c e. build_event ph flds c = Inr e \<and> \<not> truthy (noStream (tracers s ! t)) \<longrightarrow>
            mkEventFunc ph t flds c s = call_push r (JObj e) s"
  proof (intro allI impI)
    fix ph flds c e
    assume a: "build_event ph flds c = Inr e \<and> \<not> truthy (noStream (tracers s ! t))"
    with t have "mkEventFunc ph t flds c s = call_push t (JObj e) s"
      by (simp add: mkEventFunc_def lookup_def)
    then show "mkEventFunc ph t flds c s = call_push r (JObj e) s"
      using root_ancestor_call_push [OF inv ra] by simp
  qed
  have p4: "\<forall>ph flds c e.
            build_event_js ph (objects s ! fields_obj (tracers s ! t)) flds c = Inr e \<longrightarrow>
            mkEventFunc_js ph t flds c s = call_push r (JObj e) s"
  proof (intro allI impI)
    fix ph flds c e
    assume a: "build_event_js ph (objects s ! fields_obj (tracers s ! t)) flds c = Inr e"
    from t inv have "fields_obj (tracers s ! t) < length (objects s)"
      by (simp add: store_inv_iff tracer_ok_def)
    with a t have "mkEventFunc_js ph t flds c s = call_push t (JObj e) s"
      by (simp add: mkEventFunc_js_def lookup_def)
    then show "mkEventFunc_js ph t flds c s = call_push r (JObj e) s"
      using root_ancestor_call_push [OF inv ra] by simp
  qed
  have p5: "\<forall>flds c s'. child t flds s = Inr (c, s') \<longrightarrow>
            store_inv s' \<and> root_ancestor s' c r \<and> call_push c ev s' = call_push r ev s'"
  proof (intro allI impI)
    fix flds c s'
    assume ch: "child t flds s = Inr (c, s')"
    then have tc: "Tracer_constructor
         \<lparr>opt_parent = ParentTracer t, opt_fields = flds,
          opt_objectMode = JUndefined, opt_noStream = JUndefined\<rparr> s = Inr (c, s')"
      by (simp add: child_def)
    have i': "store_inv s'" using tc inv by (rule store_inv_Tracer_constructor)
    from Tracer_constructor_result [OF tc] obtain nt fs where
      "alloc nt fs s = (c, s')" "parent nt = ParentTracer t" by auto
    with inv ra have r': "root_ancestor s' c r" by (rule child_root_ancestor)
    from i' r' show "store_inv s' \<and> root_ancestor s' c r \<and> call_push c ev s' = call_push r ev s'"
      by (simp add: root_ancestor_call_push)
  qed
  have p6: "\<forall>acc flds c s'. child_js acc t flds s = Inr (c, s') \<longrightarrow>
            store_inv s' \<and> root_ancestor s' c r \<and> call_push c ev s' = call_push r ev s'"
  proof (intro allI impI)
    fix acc flds c s'
    assume ch: "child_js acc t flds s = Inr (c, s')"
    then have tc: "Tracer_constructor_js acc
         \<lparr>opt_parent = ParentTracer t, opt_fields = flds,
          opt_objectMode = JUndefined, opt_noStream = JUndefined\<rparr> s = Inr (c, s')"
      by (simp add: child_js_def)
    have i': "store_inv s'" using tc inv by (rule store_inv_Tracer_constructor_js)
    from Tracer_constructor_js_result [OF tc] obtain nt fs where
      "alloc nt fs s = (c, s')" "parent nt = ParentTracer t" by auto
    with inv ra have r': "root_ancestor s' c r" by (rule child_root_ancestor)
    from i' r' show "store_inv s' \<and> root_ancestor s' c r \<and> call_push c ev s' = call_push r ev s'"
      by (simp add: root_ancestor_call_push)
  qed
  show ?thesis by (intro conjI) (rule p1 p2 p3 p4 p5 p6)+
qed

theorem delivery_reaches_root_witness:
  "\<exists>s1 s2 s3.
     new_Tracer JUndefined empty_store = Inr (0, s1)
     \<and> child 0 (JObj [(''x'', JNum 1)]) s1 = Inr (1, s2)
     \<and> child 1 (JObj [(''y'', JNum 2)]) s2 = Inr (2, s3)
     \<and> store_inv s2 \<and> root_ancestor s2 1 0
     \<and> call_push 1 (JObj [(''ph'', JStr ''B'')]) s2 = call_push 0 (JObj [(''ph'', JStr ''B'')]) s2
     \<and> store_inv s3 \<and> root_ancestor s3 2 0
     \<and> call_push 2 (JObj [(''ph'', JStr ''B'')]) s3 = call_push 0 (JObj [(''ph'', JStr ''B'')]) s3"
proof -
  define s1 where "s1 = snd (projr (new_Tracer JUndefined empty_store))"
  define s2 where "s2 = snd (projr (child 0 (JObj [(''x'', JNum 1)]) s1))"
  define s3 where "s3 = snd (projr (child 1 (JObj [(''y'', JNum 2)]) s2))"
  have e1: "new_Tracer JUndefined empty_store = Inr (0, s1)"
    by (simp add: s1_def new_Tracer_def Tracer_constructor_def options_of_def get_prop_def
        obj_get_def inherited_fields_def alloc_def empty_store_def Let_def)
  have t1: "tracers s1 = [\<lparr>noStream = JBool False, events = [], parent = ParentVal JUndefined,
        fields_obj = 0, objectMode = Some False, push_fn = Unbound PushString,
        firstPush = False, pushed = []\<rparr>]" and o1: "length (objects s1) = 1"
    by (simp_all add: s1_def new_Tracer_def Tracer_constructor_def options_of_def get_prop_def
        obj_get_def inherited_fields_def alloc_def empty_store_def Let_def)
  have e2: "child 0 (JObj [(''x'', JNum 1)]) s1 = Inr (1, s2)"
    using t1 o1 by (simp add: s2_def child_def Tracer_constructor_def inherited_fields_def
        lookup_def alloc_def Let_def)
  have i1: "store_inv s1" using e1 store_inv_empty by (rule store_inv_new_Tracer)
  have r1: "root_ancestor s1 0 0"
    by (rule root_ancestor.root [where tr = "tracers s1 ! 0" and v = JUndefined])
       (simp_all add: t1 lookup_def)
  note a = delivery_reaches_root [OF i1 r1, of "JObj [(''ph'', JStr ''B'')]"]
  from a e2 have b: "store_inv s2" "root_ancestor s2 1 0"
    "call_push 1 (JObj [(''ph'', JStr ''B'')]) s2 = call_push 0 (JObj [(''ph'', JStr ''B'')]) s2"
    by blast+
  have l2: "length (tracers s2) = 2"
    using t1 o1 by (simp add: s2_def child_def Tracer_constructor_def inherited_fields_def
        lookup_def alloc_def Let_def)
  have e3: "child 1 (JObj [(''y'', JNum 2)]) s2 = Inr (2, s3)"
  proof -
    from b(1) l2 have "fields_obj (tracers s2 ! 1) < length (objects s2)"
      by (simp add: store_inv_iff tracer_ok_def)
    with l2 show ?thesis
      by (simp add: s3_def child_def Tracer_constructor_def inherited_fields_def
        lookup_def alloc_def Let_def)
  qed
  note c = delivery_reaches_root [OF b(1) b(2), of "JObj [(''ph'', JStr ''B'')]"]
  from c e3 have d: "store_inv s3" "root_ancestor s3 2 0"
    "call_push 2 (JObj [(''ph'', JStr ''B'')]) s3 = call_push 0 (JObj [(''ph'', JStr ''B'')]) s3"
    by blast+
  from e1 e2 e3 b d show ?thesis by blast
qed

section \<open>A child's field set is its own, and shares what it holds\<close>


lemma lookup_update:
  "lookup (h[a := c]) b = (if b = a \<and> a < length h then Some c else lookup h b)"
  by (simp add: lookup_def)

lemma lookup_append:
  "lookup (h @ cs) b = (if b < length h then Some (h ! b) else lookup cs (b - length h))"
  by (auto simp: lookup_def nth_append)



lemma is_array_h_frame:
  assumes "lookup h a = Some (ObjectCell old)"
  shows "is_array_h (h[a := ObjectCell new]) v = is_array_h h v"
proof -
  from assms have "a < length h" by (simp add: lookup_Some)
  with assms show ?thesis by (cases v) (simp_all add: is_array_h_def lookup_update)
qed














lemmas heap_defs = constructor_fields_h_def Object_assign_h_def entries_h_def obj_get_h_def
  get_prop_h_def is_array_h_def cat_join_h_def array_join_h_def build_event_js_h_def
  evCommon_h_def assign_def lookup_def

text \<open>
  In the store of the earlier sections a Tracer with a parent has a field object that is
  not its parent's.
\<close>

lemma child_field_object_is_new:
  assumes inv: "store_inv s" and c: "c < length (tracers s)"
    and par: "parent (tracers s ! c) = ParentTracer p"
  shows "fields_obj (tracers s ! c) \<noteq> fields_obj (tracers s ! p)"
proof -
  from inv c have "tracer_ok s c" by (simp add: store_inv_iff)
  with par have "p < c" by (simp add: tracer_ok_def)
  with c have p: "p < length (tracers s)" and ne: "c \<noteq> p" by simp_all
  from inv have "distinct (map fields_obj (tracers s))" by (simp add: store_inv_iff)
  with c p ne show ?thesis by (metis distinct_conv_nth length_map nth_map)
qed

text \<open>
  The calls of the example of C3 on the heap: a reader of the child's event finds what
  \<open>child_event_js_example\<close> finds in the store.
\<close>

lemma heap_event_example:
  "\<exists>h1 h2 h3.
     constructor_fields_h None (Ref 1)
       [ArrayCell [Prim (PStr ''a'')], ObjectCell [(''cat'', Ref 0), (''x'', Prim (PNum 1))]]
       = Inr (2, h1)
     \<and> constructor_fields_h (Some (Ref 2)) (Ref 5)
         (h1 @ [ArrayCell [Prim (PStr ''b'')], ObjectCell [(''cat'', Ref 4), (''y'', Prim (PNum 2))]])
       = Inr (6, h2)
     \<and> build_event_js_h ''b'' (Ref 6) (Prim (PStr ''n''))
          \<lparr>hrtime_sec = 1, hrtime_nsec = 2500, process_pid = 7\<rparr> h2 = Inr (7, h3)
     \<and> snapshot 2 h3 (Ref 7) =
         Some (JObj [(''ts'', JNum 1000003), (''pid'', JNum 7), (''tid'', JNum 7),
            (''ph'', JStr ''b''), (''cat'', JStr ''b''), (''x'', JNum 1), (''args'', JObj []),
            (''y'', JNum 2), (''name'', JStr ''n'')])"
  by (simp add: heap_defs numeral_2_eq_2)




section \<open>A child does not buffer\<close>

text \<open>
  Whatever calls follow, a store of the library stays one, keeps its Tracers, and keeps
  the \<open>noStream\<close> and the parent of each.
\<close>

lemma run_program_Cons: "run_program (a # cs) s = run_program cs (run_program [a] s)"
  by (cases a) (simp_all split: sum.splits)

lemma same_shape_keeps:
  assumes "same_shape s s'" and "store_inv s"
  shows "store_inv s'
     \<and> length (tracers s) \<le> length (tracers s')
     \<and> (\<forall>i < length (tracers s).
          noStream (tracers s' ! i) = noStream (tracers s ! i)
          \<and> parent (tracers s' ! i) = parent (tracers s ! i))"
  using assms same_shape_inv [OF assms] by (simp add: same_shape_def)

lemma run_step_keeps:
  assumes inv: "store_inv s"
  shows "store_inv (run_program [a] s)
     \<and> length (tracers s) \<le> length (tracers (run_program [a] s))
     \<and> (\<forall>i < length (tracers s).
          noStream (tracers (run_program [a] s) ! i) = noStream (tracers s ! i)
          \<and> parent (tracers (run_program [a] s) ! i) = parent (tracers s ! i))"
proof (cases a)
  case (Construct opts)
  show ?thesis
  proof (cases "Tracer_constructor opts s")
    case (Inl e)
    with Construct inv show ?thesis by simp
  next
    case (Inr p)
    obtain r s' where p: "p = (r, s')" by (cases p)
    with Inr have tc: "Tracer_constructor opts s = Inr (r, s')" by simp
    have i': "store_inv s'" using tc inv by (rule store_inv_Tracer_constructor)
    from Tracer_constructor_result [OF tc] obtain t fs where "alloc t fs s = (r, s')" by blast
    then have "tracers s' = tracers s @ [t\<lparr>fields_obj := length (objects s)\<rparr>]"
      using alloc_simps(2) [of t fs s] by simp
    with i' Construct tc show ?thesis by (simp add: nth_append)
  qed
next
  case (Phase ph this flds c)
  show ?thesis
  proof (cases "mkEventFunc ph this flds c s")
    case (Inl e)
    with Phase inv show ?thesis by simp
  next
    case (Inr s')
    from same_shape_keeps [OF same_shape_mkEventFunc [OF Inr] inv] Phase Inr
    show ?thesis by simp
  qed
next
  case (Flush this)
  show ?thesis
  proof (cases "flush this s")
    case (Inl e)
    with Flush inv show ?thesis by simp
  next
    case (Inr s')
    from same_shape_keeps [OF same_shape_flush [OF Inr] inv] Flush Inr
    show ?thesis by simp
  qed
qed

lemma run_program_keeps:
  assumes "store_inv s"
  shows "store_inv (run_program cs s)
     \<and> length (tracers s) \<le> length (tracers (run_program cs s))
     \<and> (\<forall>i < length (tracers s).
          noStream (tracers (run_program cs s) ! i) = noStream (tracers s ! i)
          \<and> parent (tracers (run_program cs s) ! i) = parent (tracers s ! i))"
  using assms
proof (induction cs arbitrary: s)
  case Nil
  then show ?case by simp
next
  case (Cons a cs)
  note st = run_step_keeps [OF Cons.prems, of a]
  from st have i1: "store_inv (run_program [a] s)" by blast
  note ih = Cons.IH [OF i1]
  have e: "run_program (a # cs) s = run_program cs (run_program [a] s)"
    by (rule run_program_Cons)
  from st ih show ?case unfolding e by (auto simp: less_le_trans)
qed

text \<open>
  C10. \<open>child\<close> passes no \<open>noStream\<close>, so the Tracer it returns has \<open>noStream\<close>
  false, and keeps it whatever calls follow: constructions, phase methods and flushes, of
  any Tracers. Let \<open>c\<close> be made by \<open>child\<close> of any Tracer \<open>p\<close> (a root or itself a
  child, so \<open>c\<close> may be a grandchild), let any such calls follow, and let the root above
  \<open>c\<close> be in buffered mode. Then \<open>flush\<close> of \<open>c\<close> does nothing, and every phase
  method of \<open>c\<close> whose event can be built sends it to the root's stream at once, framed
  as the root frames; no Tracer's buffer changes. A \<open>flush\<close> of the root after it
  pushes the events of the root's own buffer and then the closing bracket (in text mode):
  the child's event is not among what \<open>flush\<close> pushes.
\<close>

theorem child_never_buffers:
  assumes inv: "store_inv s0" and ch: "child p cf s0 = Inr (c, s1)"
    and s: "s = run_program cs s1"
    and ra: "root_ancestor s c r"
    and ns: "noStream (tracers s ! r) = JBool True"
  shows "noStream (tracers s1 ! c) = JBool False
     \<and> noStream (tracers s ! c) = JBool False
     \<and> flush c s = Inr s
     \<and> (\<forall>ph flds clk e. build_event ph flds clk = Inl e \<longrightarrow>
          mkEventFunc ph c flds clk s = Inl e)
     \<and> (\<forall>ph flds clk ev. build_event ph flds clk = Inr ev \<longrightarrow>
          (\<exists>m s2. push_fn (tracers s ! r) = Unbound m
             \<and> mkEventFunc ph c flds clk s = Inr s2
             \<and> pushed (tracers s2 ! r) =
                 pushed (tracers s ! r) @ frames m (firstPush (tracers s ! r)) [JObj ev]
             \<and> map events (tracers s2) = map events (tracers s)
             \<and> (\<exists>s3. flush r s2 = Inr s3
                  \<and> pushed (tracers s3 ! r) =
                      pushed (tracers s2 ! r)
                      @ frames m (firstPush (tracers s2 ! r)) (events (tracers s ! r))
                      @ (if objectMode (tracers s ! r) \<noteq> Some True then [ChunkText '']''] else []))))"
proof -
  from child_made [OF ch inv] obtain nt where
    i1: "store_inv s1" and c: "c = length (tracers s0)"
    and t1: "tracers s1 = tracers s0 @ [nt]"
    and nsn: "noStream nt = JBool False"
    by blast
  from t1 c have c1: "c < length (tracers s1)" and cn: "tracers s1 ! c = nt" by simp_all
  from cn nsn have p1: "noStream (tracers s1 ! c) = JBool False" by simp
  note keeps = run_program_keeps [OF i1, of cs]
  from keeps s have i: "store_inv s" by simp
  from keeps s c1 have cl: "c < length (tracers s)" by simp
  from keeps s c1 p1 have p2: "noStream (tracers s ! c) = JBool False" by simp
  have p3: "flush c s = Inr s" using cl p2 by (simp add: flush_streaming)
  from root_ancestor_push [OF i ra] obtain m where
    r: "r < length (tracers s)" and m: "push_fn (tracers s ! r) = Unbound m"
    by blast
  have p4: "\<forall>ph flds clk e. build_event ph flds clk = Inl e \<longrightarrow>
          mkEventFunc ph c flds clk s = Inl e"
    by (simp add: mkEventFunc_def)
  have p5: "\<forall>ph flds clk ev. build_event ph flds clk = Inr ev \<longrightarrow>
          (\<exists>m s2. push_fn (tracers s ! r) = Unbound m
             \<and> mkEventFunc ph c flds clk s = Inr s2
             \<and> pushed (tracers s2 ! r) =
                 pushed (tracers s ! r) @ frames m (firstPush (tracers s ! r)) [JObj ev]
             \<and> map events (tracers s2) = map events (tracers s)
             \<and> (\<exists>s3. flush r s2 = Inr s3
                  \<and> pushed (tracers s3 ! r) =
                      pushed (tracers s2 ! r)
                      @ frames m (firstPush (tracers s2 ! r)) (events (tracers s ! r))
                      @ (if objectMode (tracers s ! r) \<noteq> Some True then [ChunkText '']''] else [])))"
  proof (intro allI impI)
    fix ph flds clk ev
    assume ev: "build_event ph flds clk = Inr ev"
    define s2 where "s2 = s\<lparr>tracers := (tracers s)[r := (tracers s ! r)
                 \<lparr>firstPush := firstPush (tracers s ! r) \<or> m \<noteq> Readable_push,
                  pushed := pushed (tracers s ! r) @ frames m (firstPush (tracers s ! r)) [JObj ev]\<rparr>]\<rparr>"
    from ev cl p2 have "mkEventFunc ph c flds clk s = call_push c (JObj ev) s"
      by (simp add: mkEventFunc_def lookup_def)
    also have "\<dots> = call_push r (JObj ev) s" using i ra by (rule root_ancestor_call_push)
    also have "\<dots> = Inr s2" unfolding s2_def using r m by (rule call_push_root)
    finally have mk: "mkEventFunc ph c flds clk s = Inr s2" .
    have q1: "pushed (tracers s2 ! r) =
                 pushed (tracers s ! r) @ frames m (firstPush (tracers s ! r)) [JObj ev]"
      using r by (simp add: s2_def)
    have q2: "map events (tracers s2) = map events (tracers s)"
      using r by (simp add: s2_def map_update list_update_same_conv)
    have q3: "events (tracers s2 ! r) = events (tracers s ! r)"
      using r by (simp add: s2_def)
    have r2: "r < length (tracers s2)" using r by (simp add: s2_def)
    have m2: "push_fn (tracers s2 ! r) = Unbound m" using r m by (simp add: s2_def)
    have n2: "noStream (tracers s2 ! r) = JBool True" using r ns by (simp add: s2_def)
    have o2: "objectMode (tracers s2 ! r) = objectMode (tracers s ! r)" using r by (simp add: s2_def)
    from flush_root [OF r2 m2 n2] r2 q3 o2
    have q4: "\<exists>s3. flush r s2 = Inr s3
                  \<and> pushed (tracers s3 ! r) =
                      pushed (tracers s2 ! r)
                      @ frames m (firstPush (tracers s2 ! r)) (events (tracers s ! r))
                      @ (if objectMode (tracers s ! r) \<noteq> Some True then [ChunkText '']''] else [])"
      by simp
    from m mk q1 q2 q4 show "\<exists>m s2. push_fn (tracers s ! r) = Unbound m
             \<and> mkEventFunc ph c flds clk s = Inr s2
             \<and> pushed (tracers s2 ! r) =
                 pushed (tracers s ! r) @ frames m (firstPush (tracers s ! r)) [JObj ev]
             \<and> map events (tracers s2) = map events (tracers s)
             \<and> (\<exists>s3. flush r s2 = Inr s3
                  \<and> pushed (tracers s3 ! r) =
                      pushed (tracers s2 ! r)
                      @ frames m (firstPush (tracers s2 ! r)) (events (tracers s ! r))
                      @ (if objectMode (tracers s ! r) \<noteq> Some True then [ChunkText '']''] else []))"
      by blast
  qed
  show ?thesis by (intro conjI) (rule p1 p2 p3 p4 p5)+
qed

theorem child_never_buffers_witness:
  "\<exists>sa sb s0 s1 s s2 s3.
     new_Tracer (JObj [(''noStream'', JBool True)]) empty_store = Inr (0, sa)
     \<and> Tracer_begin 0 (JStr ''r'') \<lparr>hrtime_sec = 1, hrtime_nsec = 2500, process_pid = 7\<rparr> sa = Inr sb
     \<and> child 0 (JObj [(''x'', JNum 1)]) sb = Inr (1, s0)
     \<and> child 1 JUndefined s0 = Inr (2, s1)
     \<and> s = run_program
            [Phase ''E'' 0 (JStr ''q'') \<lparr>hrtime_sec = 2, hrtime_nsec = 0, process_pid = 7\<rparr>,
             Construct \<lparr>opt_parent = ParentTracer 0, opt_fields = JUndefined,
                        opt_objectMode = JUndefined, opt_noStream = JUndefined\<rparr>] s1
     \<and> length (tracers s) = 4
     \<and> noStream (tracers s ! 2) = JBool False
     \<and> flush 2 s = Inr s
     \<and> mkEventFunc ''B'' 2 (JStr ''n'') \<lparr>hrtime_sec = 3, hrtime_nsec = 0, process_pid = 7\<rparr> s = Inr s2
     \<and> pushed (tracers s2 ! 0) =
          [ChunkText ''['',
           ChunkText (JSON_stringify (JObj [(''ts'', JNum 3000000), (''pid'', JNum 7),
              (''tid'', JNum 7), (''ph'', JStr ''B''), (''name'', JStr ''n'')]))]
     \<and> map events (tracers s2) = map events (tracers s)
     \<and> flush 0 s2 = Inr s3
     \<and> pushed (tracers s3 ! 0) = pushed (tracers s2 ! 0) @
          [ChunkText ([CHR '','', CHR 0x0A] @
             JSON_stringify (JObj [(''ts'', JNum 1000003), (''pid'', JNum 7),
              (''tid'', JNum 7), (''ph'', JStr ''B''), (''name'', JStr ''r'')])),
           ChunkText ([CHR '','', CHR 0x0A] @
             JSON_stringify (JObj [(''ts'', JNum 2000000), (''pid'', JNum 7),
              (''tid'', JNum 7), (''ph'', JStr ''E''), (''name'', JStr ''q'')])),
           ChunkText '']'']"
proof -
  let ?c1 = "\<lparr>hrtime_sec = 1, hrtime_nsec = 2500, process_pid = 7\<rparr>"
  let ?c2 = "\<lparr>hrtime_sec = 2, hrtime_nsec = 0, process_pid = 7\<rparr>"
  let ?c3 = "\<lparr>hrtime_sec = 3, hrtime_nsec = 0, process_pid = 7\<rparr>"
  let ?cs = "[Phase ''E'' 0 (JStr ''q'') ?c2,
             Construct \<lparr>opt_parent = ParentTracer 0, opt_fields = JUndefined,
                        opt_objectMode = JUndefined, opt_noStream = JUndefined\<rparr>]"
  define sa where "sa = snd (projr (new_Tracer (JObj [(''noStream'', JBool True)]) empty_store))"
  define sb where "sb = projr (Tracer_begin 0 (JStr ''r'') ?c1 sa)"
  define s0 where "s0 = snd (projr (child 0 (JObj [(''x'', JNum 1)]) sb))"
  define s1 where "s1 = snd (projr (child 1 JUndefined s0))"
  define s where "s = run_program ?cs s1"
  have e0: "new_Tracer (JObj [(''noStream'', JBool True)]) empty_store = Inr (0, sa)"
    by (simp add: sa_def eval_defs)
  have e1: "Tracer_begin 0 (JStr ''r'') ?c1 sa = Inr sb"
    by (simp add: sb_def sa_def eval_defs)
  have e2: "child 0 (JObj [(''x'', JNum 1)]) sb = Inr (1, s0)"
    by (simp add: s0_def sb_def sa_def eval_defs)
  have e3: "child 1 JUndefined s0 = Inr (2, s1)"
    by (simp add: s1_def s0_def sb_def sa_def eval_defs)
  have ia: "store_inv sa" using e0 store_inv_empty by (rule store_inv_new_Tracer)
  have ib: "store_inv sb"
    using same_shape_mkEventFunc [OF e1 [unfolded Tracer_begin_def]] ia by (rule same_shape_inv)
  have i0: "store_inv s0" using child_made [OF e2 ib] by blast
  have ts: "tracers s =
     [\<lparr>noStream = JBool True,
        events = [JObj [(''ts'', JNum 1000003), (''pid'', JNum 7),
                    (''tid'', JNum 7), (''ph'', JStr ''B''), (''name'', JStr ''r'')],
                  JObj [(''ts'', JNum 2000000), (''pid'', JNum 7),
                    (''tid'', JNum 7), (''ph'', JStr ''E''), (''name'', JStr ''q'')]],
        parent = ParentVal JUndefined,
        fields_obj = 0, objectMode = Some False, push_fn = Unbound PushString,
        firstPush = False, pushed = []\<rparr>,
      \<lparr>noStream = JBool False, events = [], parent = ParentTracer 0,
        fields_obj = 1, objectMode = None, push_fn = Bound 0 PushString,
        firstPush = False, pushed = []\<rparr>,
      \<lparr>noStream = JBool False, events = [], parent = ParentTracer 1,
        fields_obj = 2, objectMode = None, push_fn = Bound 0 PushString,
        firstPush = False, pushed = []\<rparr>,
      \<lparr>noStream = JBool False, events = [], parent = ParentTracer 0,
        fields_obj = 3, objectMode = None, push_fn = Bound 0 PushString,
        firstPush = False, pushed = []\<rparr>]"
    by (simp add: s_def s1_def s0_def sb_def sa_def eval_defs)
  have r0: "root_ancestor s 0 0"
    by (rule root_ancestor.root [where tr = "tracers s ! 0" and v = JUndefined])
       (simp_all add: ts lookup_def)
  have r1: "root_ancestor s 1 0"
    by (rule root_ancestor.step [where tr = "tracers s ! 1" and p = 0, OF _ _ r0])
       (simp_all add: ts lookup_def)
  have ra: "root_ancestor s 2 0"
    by (rule root_ancestor.step [where tr = "tracers s ! 2" and p = 1, OF _ _ r1])
       (simp_all add: ts lookup_def)
  have ns: "noStream (tracers s ! 0) = JBool True" by (simp add: ts)
  note t = child_never_buffers [OF i0 e3 s_def ra ns]
  from t have a: "noStream (tracers s ! 2) = JBool False" "flush 2 s = Inr s" by blast+
  have be: "build_event ''B'' (JStr ''n'') ?c3 = Inr [(''ts'', JNum 3000000), (''pid'', JNum 7),
              (''tid'', JNum 7), (''ph'', JStr ''B''), (''name'', JStr ''n'')]"
    by (simp add: eval_defs)
  from t be obtain m s2 s3 where
    b: "push_fn (tracers s ! 0) = Unbound m"
       "mkEventFunc ''B'' 2 (JStr ''n'') ?c3 s = Inr s2"
       "pushed (tracers s2 ! 0) =
          pushed (tracers s ! 0) @ frames m (firstPush (tracers s ! 0))
            [JObj [(''ts'', JNum 3000000), (''pid'', JNum 7),
              (''tid'', JNum 7), (''ph'', JStr ''B''), (''name'', JStr ''n'')]]"
       "map events (tracers s2) = map events (tracers s)"
       "flush 0 s2 = Inr s3"
       "pushed (tracers s3 ! 0) = pushed (tracers s2 ! 0)
           @ frames m (firstPush (tracers s2 ! 0)) (events (tracers s ! 0))
           @ (if objectMode (tracers s ! 0) \<noteq> Some True then [ChunkText '']''] else [])"
    by blast
  from b(1) have m: "m = PushString" by (simp add: ts)
  have fp2: "firstPush (tracers s2 ! 0)"
    using b(2) by (auto simp: ts eval_defs)
  from b(3) m have c: "pushed (tracers s2 ! 0) =
          [ChunkText ''['',
           ChunkText (JSON_stringify (JObj [(''ts'', JNum 3000000), (''pid'', JNum 7),
              (''tid'', JNum 7), (''ph'', JStr ''B''), (''name'', JStr ''n'')]))]"
    by (simp add: ts del: JSON_stringify.simps)
  from b(6) m fp2 have d: "pushed (tracers s3 ! 0) = pushed (tracers s2 ! 0) @
          [ChunkText ([CHR '','', CHR 0x0A] @
             JSON_stringify (JObj [(''ts'', JNum 1000003), (''pid'', JNum 7),
              (''tid'', JNum 7), (''ph'', JStr ''B''), (''name'', JStr ''r'')])),
           ChunkText ([CHR '','', CHR 0x0A] @
             JSON_stringify (JObj [(''ts'', JNum 2000000), (''pid'', JNum 7),
              (''tid'', JNum 7), (''ph'', JStr ''E''), (''name'', JStr ''q'')])),
           ChunkText '']'']"
    by (simp add: ts del: JSON_stringify.simps)
  have l: "length (tracers s) = 4" by (simp add: ts)
  from e0 e1 e2 e3 s_def l a b(2) c b(4) b(5) d show ?thesis by blast
qed

section \<open>Flushing the buffer\<close>

text \<open>
  C5, as amended. On a buffering text-mode Tracer without a parent that holds at least one
  event, \<open>flush\<close> pushes the opening bracket if it is not out yet, every buffered event
  in order with the separator between them, and one closing bracket. It neither empties
  the buffer nor marks the Tracer closed, so a second \<open>flush\<close> is no no-op: it pushes
  every buffered event, each after a separator, and a closing bracket again.
\<close>

theorem flush_repeats:
  assumes r: "r < length (tracers s)" and m: "push_fn (tracers s ! r) = Unbound PushString"
    and om: "objectMode (tracers s ! r) = Some False"
    and ns: "noStream (tracers s ! r) = JBool True"
    and ne: "events (tracers s ! r) \<noteq> []"
  shows "\<exists>s1 s2. flush r s = Inr s1
     \<and> pushed (tracers s1 ! r) =
          pushed (tracers s ! r)
          @ frames PushString (firstPush (tracers s ! r)) (events (tracers s ! r))
          @ [ChunkText '']'']
     \<and> events (tracers s1 ! r) = events (tracers s ! r)
     \<and> noStream (tracers s1 ! r) = JBool True
     \<and> flush r s1 = Inr s2
     \<and> pushed (tracers s2 ! r) =
          pushed (tracers s1 ! r)
          @ frames PushString True (events (tracers s ! r))
          @ [ChunkText '']'']"
proof -
  let ?t = "tracers s ! r"
  let ?s1 = "s\<lparr>tracers := (tracers s)[r := ?t
            \<lparr>firstPush := firstPush ?t \<or> (events ?t \<noteq> [] \<and> PushString \<noteq> Readable_push),
             pushed := pushed ?t @ frames PushString (firstPush ?t) (events ?t)
                @ (if objectMode ?t \<noteq> Some True then [ChunkText '']''] else [])\<rparr>]\<rparr>"
  have f1: "flush r s = Inr ?s1" using r m ns by (rule flush_root)
  have r1: "r < length (tracers ?s1)" using r by simp
  have t1: "tracers ?s1 ! r = ?t
            \<lparr>firstPush := True,
             pushed := pushed ?t @ frames PushString (firstPush ?t) (events ?t) @ [ChunkText '']'']\<rparr>"
    using r ne om by simp
  have m1: "push_fn (tracers ?s1 ! r) = Unbound PushString" using m r by simp
  have n1: "noStream (tracers ?s1 ! r) = JBool True" using ns r by simp
  from flush_root [OF r1 m1 n1] obtain s2 where
    f2: "flush r ?s1 = Inr s2"
    and s2: "s2 = ?s1\<lparr>tracers := (tracers ?s1)[r := (tracers ?s1 ! r)
            \<lparr>firstPush := firstPush (tracers ?s1 ! r) \<or> (events (tracers ?s1 ! r) \<noteq> [] \<and> PushString \<noteq> Readable_push),
             pushed := pushed (tracers ?s1 ! r)
                @ frames PushString (firstPush (tracers ?s1 ! r)) (events (tracers ?s1 ! r))
                @ (if objectMode (tracers ?s1 ! r) \<noteq> Some True then [ChunkText '']''] else [])\<rparr>]\<rparr>"
    by blast
  have p2: "pushed (tracers s2 ! r) =
          pushed (tracers ?s1 ! r) @ frames PushString True (events ?t) @ [ChunkText '']'']"
    using r om ne by (simp add: s2)
  have p1: "pushed (tracers ?s1 ! r) =
          pushed ?t @ frames PushString (firstPush ?t) (events ?t) @ [ChunkText '']'']"
    using r om by simp
  have e1: "events (tracers ?s1 ! r) = events ?t" using r by simp
  from f1 p1 e1 n1 f2 p2 show ?thesis by blast
qed

theorem flush_repeats_witness:
  "\<exists>s0 s s1 s2.
     new_Tracer (JObj [(''noStream'', JBool True)]) empty_store = Inr (0, s0)
     \<and> Tracer_begin 0 (JStr ''n'') \<lparr>hrtime_sec = 1, hrtime_nsec = 2500, process_pid = 7\<rparr> s0 = Inr s
     \<and> events (tracers s ! 0) \<noteq> []
     \<and> flush 0 s = Inr s1
     \<and> pushed (tracers s1 ! 0) =
          pushed (tracers s ! 0) @ frames PushString (firstPush (tracers s ! 0)) (events (tracers s ! 0))
          @ [ChunkText '']'']
     \<and> flush 0 s1 = Inr s2
     \<and> pushed (tracers s2 ! 0) =
          pushed (tracers s1 ! 0) @ frames PushString True (events (tracers s ! 0)) @ [ChunkText '']'']"
proof -
  let ?c1 = "\<lparr>hrtime_sec = 1, hrtime_nsec = 2500, process_pid = 7\<rparr>"
  define s0 where "s0 = snd (projr (new_Tracer (JObj [(''noStream'', JBool True)]) empty_store))"
  define s where "s = projr (Tracer_begin 0 (JStr ''n'') ?c1 s0)"
  have e0: "new_Tracer (JObj [(''noStream'', JBool True)]) empty_store = Inr (0, s0)"
    by (simp add: s0_def eval_defs)
  have e1: "Tracer_begin 0 (JStr ''n'') ?c1 s0 = Inr s"
    by (simp add: s_def s0_def eval_defs)
  have f: "tracers s ! 0 = \<lparr>noStream = JBool True,
        events = [JObj [(''ts'', JNum 1000003), (''pid'', JNum 7),
              (''tid'', JNum 7), (''ph'', JStr ''B''), (''name'', JStr ''n'')]],
        parent = ParentVal JUndefined,
        fields_obj = 0, objectMode = Some False, push_fn = Unbound PushString,
        firstPush = False, pushed = []\<rparr>" and l: "length (tracers s) = 1"
    by (simp_all add: s_def s0_def eval_defs)
  have h: "0 < length (tracers s)" "push_fn (tracers s ! 0) = Unbound PushString"
    "objectMode (tracers s ! 0) = Some False" "noStream (tracers s ! 0) = JBool True"
    "events (tracers s ! 0) \<noteq> []"
    by (simp_all add: f l)
  from flush_repeats [OF h] e0 e1 h(5) show ?thesis by blast
qed

theorem second_flush_pushes_again:
  "\<exists>s0 s1 s2 s3.
     new_Tracer (JObj [(''noStream'', JBool True)]) empty_store = Inr (0, s0)
     \<and> Tracer_begin 0 (JStr ''n'') \<lparr>hrtime_sec = 1, hrtime_nsec = 2500, process_pid = 7\<rparr> s0 = Inr s1
     \<and> flush 0 s1 = Inr s2
     \<and> flush 0 s2 = Inr s3
     \<and> s3 \<noteq> s2
     \<and> fragments (pushed (tracers s2 ! 0)) =
          ''['' @ JSON_stringify (JObj [(''ts'', JNum 1000003), (''pid'', JNum 7),
              (''tid'', JNum 7), (''ph'', JStr ''B''), (''name'', JStr ''n'')]) @ '']''
     \<and> fragments (pushed (tracers s3 ! 0)) =
          ''['' @ JSON_stringify (JObj [(''ts'', JNum 1000003), (''pid'', JNum 7),
              (''tid'', JNum 7), (''ph'', JStr ''B''), (''name'', JStr ''n'')]) @ '']''
          @ [CHR '','', CHR 0x0A] @ JSON_stringify (JObj [(''ts'', JNum 1000003), (''pid'', JNum 7),
              (''tid'', JNum 7), (''ph'', JStr ''B''), (''name'', JStr ''n'')]) @ '']''"
  by (simp add: eval_defs del: JSON_stringify.simps)

text \<open>
  With nothing buffered, \<open>flush\<close> pushes the closing bracket alone, which is no JSON
  text.
\<close>

lemma flush_of_empty_buffer:
  "\<exists>s0 s1.
     new_Tracer (JObj [(''noStream'', JBool True)]) empty_store = Inr (0, s0)
     \<and> flush 0 s0 = Inr s1
     \<and> fragments (pushed (tracers s1 ! 0)) = '']''
     \<and> JSON_parse '']'' = None"
  by (simp add: eval_defs JSON_parse_def skip_ws_def is_ws_def parse_int_def is_digit_def)

section \<open>The text of the stream\<close>

text \<open>
  C1, as amended. Take a root Tracer of the TypeScript source in text mode, fresh from its
  constructor, and any sequence of phase-method calls on it that constructs at least one
  event. In buffered mode, after \<open>flush\<close> the fragments pushed to the stream, in order,
  are the bracketed events' texts separated by a comma and a newline, which a JSON reader
  takes for the array of the events constructed, in construction order. In streaming mode
  \<open>flush\<close> does nothing at all: the fragments are the same text without its closing
  bracket, which is no JSON text, and become that array once a bracket is appended. The
  content of an event is what \<open>JSON.stringify\<close> keeps of it.
\<close>

theorem text_stream_framing:
  assumes r: "r < length (tracers s)" and m: "push_fn (tracers s ! r) = Unbound PushString"
    and om: "objectMode (tracers s ! r) = Some False"
    and fresh: "pushed (tracers s ! r) = []" "\<not> firstPush (tracers s ! r)"
      "events (tracers s ! r) = []"
    and ne: "constructed calls \<noteq> []"
  shows "(\<not> truthy (noStream (tracers s ! r)) \<longrightarrow>
            flush r (run_calls r calls s) = Inr (run_calls r calls s)
            \<and> fragments (pushed (tracers (run_calls r calls s) ! r)) =
                ''['' @ join_with [CHR '','', CHR 0x0A] (map JSON_stringify (constructed calls))
            \<and> JSON_parse (fragments (pushed (tracers (run_calls r calls s) ! r))) = None
            \<and> JSON_parse (fragments (pushed (tracers (run_calls r calls s) ! r)) @ '']'') =
                Some (JArr (map json_content (constructed calls))))
       \<and> (noStream (tracers s ! r) = JBool True \<longrightarrow>
            (\<exists>s'. flush r (run_calls r calls s) = Inr s'
               \<and> fragments (pushed (tracers s' ! r)) =
                   ''['' @ join_with [CHR '','', CHR 0x0A] (map JSON_stringify (constructed calls)) @ '']''
               \<and> JSON_parse (fragments (pushed (tracers s' ! r))) =
                   Some (JArr (map json_content (constructed calls)))))"
proof (intro conjI impI)
  let ?evs = "constructed calls"
  let ?text = "''['' @ join_with [CHR '','', CHR 0x0A] (map JSON_stringify ?evs)"
  have ws: "\<forall>c \<in> set [CHR 0x0A]. is_ws c" by (simp add: is_ws_def)
  have df: "\<forall>e \<in> set ?evs. e \<noteq> JUndefined" using constructed_defined by blast
  have parse: "JSON_parse (?text @ '']'') = Some (JArr (map json_content ?evs))"
    using JSON_parse_array_text [OF ne df ws] by simp
  {
    assume st: "\<not> truthy (noStream (tracers s ! r))"
    let ?s1 = "run_calls r calls s"
    from run_calls_streaming [OF r m st, of calls] push_all_root [OF r m, of ?evs]
    have s1: "?s1 = s\<lparr>tracers := (tracers s)[r := (tracers s ! r)
            \<lparr>firstPush := firstPush (tracers s ! r) \<or> (?evs \<noteq> [] \<and> PushString \<noteq> Readable_push),
             pushed := pushed (tracers s ! r) @ frames PushString (firstPush (tracers s ! r)) ?evs\<rparr>]\<rparr>"
      by simp
    have p: "pushed (tracers ?s1 ! r) = frames PushString False ?evs"
      using r fresh by (simp add: s1)
    have n1: "noStream (tracers ?s1 ! r) \<noteq> JBool True" using r st by (auto simp: s1)
    have r1: "r < length (tracers ?s1)" using r by (simp add: s1)
    show "flush r ?s1 = Inr ?s1" using n1 r1 by (rule flush_streaming)
    show "fragments (pushed (tracers ?s1 ! r)) = ?text"
      unfolding p using ne by (rule fragments_frames_fresh)
    then show "JSON_parse (fragments (pushed (tracers ?s1 ! r))) = None"
      "JSON_parse (fragments (pushed (tracers ?s1 ! r)) @ '']'') =
                Some (JArr (map json_content ?evs))"
      using parse JSON_parse_unclosed [OF ne df ws] by simp_all
  }
  {
    assume bf: "noStream (tracers s ! r) = JBool True"
    let ?s1 = "run_calls r calls s"
    have tr: "truthy (noStream (tracers s ! r))" using bf by simp
    have s1: "?s1 = s\<lparr>tracers := (tracers s)[r := (tracers s ! r)
          \<lparr>events := events (tracers s ! r) @ ?evs\<rparr>]\<rparr>"
      using r tr by (rule run_calls_buffering)
    have r1: "r < length (tracers ?s1)" using r by (simp add: s1)
    have m1: "push_fn (tracers ?s1 ! r) = Unbound PushString" using r m by (simp add: s1)
    have n1: "noStream (tracers ?s1 ! r) = JBool True" using r bf by (simp add: s1)
    have e1: "events (tracers ?s1 ! r) = ?evs" "pushed (tracers ?s1 ! r) = []"
      "\<not> firstPush (tracers ?s1 ! r)" "objectMode (tracers ?s1 ! r) = Some False"
      using r fresh om by (simp_all add: s1)
    from flush_root [OF r1 m1 n1] obtain s' where
      f: "flush r ?s1 = Inr s'"
      and s': "s' = ?s1\<lparr>tracers := (tracers ?s1)[r := (tracers ?s1 ! r)
            \<lparr>firstPush := firstPush (tracers ?s1 ! r) \<or> (events (tracers ?s1 ! r) \<noteq> [] \<and> PushString \<noteq> Readable_push),
             pushed := pushed (tracers ?s1 ! r)
                @ frames PushString (firstPush (tracers ?s1 ! r)) (events (tracers ?s1 ! r))
                @ (if objectMode (tracers ?s1 ! r) \<noteq> Some True then [ChunkText '']''] else [])\<rparr>]\<rparr>"
      by blast
    have "pushed (tracers s' ! r) = frames PushString False ?evs @ [ChunkText '']'']"
      using r1 e1 by (simp add: s')
    then have t: "fragments (pushed (tracers s' ! r)) = ?text @ '']''"
      using ne by (simp add: fragments_append fragments_frames_fresh)
    with f parse
    show "\<exists>s'. flush r ?s1 = Inr s'
               \<and> fragments (pushed (tracers s' ! r)) =
                   ''['' @ join_with [CHR '','', CHR 0x0A] (map JSON_stringify ?evs) @ '']''
               \<and> JSON_parse (fragments (pushed (tracers s' ! r))) =
                   Some (JArr (map json_content ?evs))"
      by auto
  }
qed

theorem text_stream_framing_witness:
  "\<exists>s0 sb s'.
     new_Tracer JUndefined empty_store = Inr (0, s0)
     \<and> new_Tracer (JObj [(''noStream'', JBool True)]) empty_store = Inr (0, sb)
     \<and> constructed
           [(''B'', JStr ''n'', \<lparr>hrtime_sec = 1, hrtime_nsec = 2500, process_pid = 7\<rparr>),
            (''E'', JObj [(''name'', JStr ''n''), (''cat'', JArr [JStr ''a'', JStr ''b'']),
                          (''x'', JUndefined)],
             \<lparr>hrtime_sec = 2, hrtime_nsec = 0, process_pid = 7\<rparr>)] \<noteq> []
     \<and> JSON_parse (fragments (pushed (tracers (run_calls 0
           [(''B'', JStr ''n'', \<lparr>hrtime_sec = 1, hrtime_nsec = 2500, process_pid = 7\<rparr>),
            (''E'', JObj [(''name'', JStr ''n''), (''cat'', JArr [JStr ''a'', JStr ''b'']),
                          (''x'', JUndefined)],
             \<lparr>hrtime_sec = 2, hrtime_nsec = 0, process_pid = 7\<rparr>)] s0) ! 0)) @ '']'')
         = Some (JArr
            [JObj [(''ts'', JNum 1000003), (''pid'', JNum 7), (''tid'', JNum 7),
                   (''ph'', JStr ''B''), (''name'', JStr ''n'')],
             JObj [(''ts'', JNum 2000000), (''pid'', JNum 7), (''tid'', JNum 7),
                   (''ph'', JStr ''E''), (''name'', JStr ''n''), (''cat'', JStr ''a,b'')]])
     \<and> flush 0 (run_calls 0
           [(''B'', JStr ''n'', \<lparr>hrtime_sec = 1, hrtime_nsec = 2500, process_pid = 7\<rparr>),
            (''E'', JObj [(''name'', JStr ''n''), (''cat'', JArr [JStr ''a'', JStr ''b'']),
                          (''x'', JUndefined)],
             \<lparr>hrtime_sec = 2, hrtime_nsec = 0, process_pid = 7\<rparr>)] sb) = Inr s'
     \<and> JSON_parse (fragments (pushed (tracers s' ! 0)))
         = Some (JArr
            [JObj [(''ts'', JNum 1000003), (''pid'', JNum 7), (''tid'', JNum 7),
                   (''ph'', JStr ''B''), (''name'', JStr ''n'')],
             JObj [(''ts'', JNum 2000000), (''pid'', JNum 7), (''tid'', JNum 7),
                   (''ph'', JStr ''E''), (''name'', JStr ''n''), (''cat'', JStr ''a,b'')]])"
proof -
  let ?calls = "[(''B'', JStr ''n'', \<lparr>hrtime_sec = 1, hrtime_nsec = 2500, process_pid = 7\<rparr>),
            (''E'', JObj [(''name'', JStr ''n''), (''cat'', JArr [JStr ''a'', JStr ''b'']),
                          (''x'', JUndefined)],
             \<lparr>hrtime_sec = 2, hrtime_nsec = 0, process_pid = 7\<rparr>)]"
  define s0 where "s0 = snd (projr (new_Tracer JUndefined empty_store))"
  define sb where "sb = snd (projr (new_Tracer (JObj [(''noStream'', JBool True)]) empty_store))"
  have e0: "new_Tracer JUndefined empty_store = Inr (0, s0)"
    by (simp add: s0_def eval_defs)
  have eb: "new_Tracer (JObj [(''noStream'', JBool True)]) empty_store = Inr (0, sb)"
    by (simp add: sb_def eval_defs)
  have t0: "tracers s0 = [\<lparr>noStream = JBool False, events = [], parent = ParentVal JUndefined,
        fields_obj = 0, objectMode = Some False, push_fn = Unbound PushString,
        firstPush = False, pushed = []\<rparr>]"
    by (simp add: s0_def eval_defs)
  have tb: "tracers sb = [\<lparr>noStream = JBool True, events = [], parent = ParentVal JUndefined,
        fields_obj = 0, objectMode = Some False, push_fn = Unbound PushString,
        firstPush = False, pushed = []\<rparr>]"
    by (simp add: sb_def eval_defs)
  have c: "constructed ?calls =
            [JObj [(''ts'', JNum 1000003), (''pid'', JNum 7), (''tid'', JNum 7),
                   (''ph'', JStr ''B''), (''name'', JStr ''n'')],
             JObj [(''ts'', JNum 2000000), (''pid'', JNum 7), (''tid'', JNum 7),
                   (''ph'', JStr ''E''), (''name'', JStr ''n''), (''cat'', JStr ''a,b''),
                   (''x'', JUndefined)]]"
    by (simp add: eval_defs)
  then have ne: "constructed ?calls \<noteq> []" by simp
  have h0: "0 < length (tracers s0)" "push_fn (tracers s0 ! 0) = Unbound PushString"
    "objectMode (tracers s0 ! 0) = Some False" "pushed (tracers s0 ! 0) = []"
    "\<not> firstPush (tracers s0 ! 0)" "events (tracers s0 ! 0) = []"
    by (simp_all add: t0)
  have hb: "0 < length (tracers sb)" "push_fn (tracers sb ! 0) = Unbound PushString"
    "objectMode (tracers sb ! 0) = Some False" "pushed (tracers sb ! 0) = []"
    "\<not> firstPush (tracers sb ! 0)" "events (tracers sb ! 0) = []"
    by (simp_all add: tb)
  have n0: "\<not> truthy (noStream (tracers s0 ! 0))" by (simp add: t0)
  have nb: "noStream (tracers sb ! 0) = JBool True" by (simp add: tb)
  from text_stream_framing [OF h0 ne] n0
  have a: "JSON_parse (fragments (pushed (tracers (run_calls 0 ?calls s0) ! 0)) @ '']'') =
                Some (JArr (map json_content (constructed ?calls)))"
    by blast
  from text_stream_framing [OF hb ne] nb obtain s' where
    b: "flush 0 (run_calls 0 ?calls sb) = Inr s'"
       "JSON_parse (fragments (pushed (tracers s' ! 0))) =
                   Some (JArr (map json_content (constructed ?calls)))"
    by blast
  have m: "map json_content (constructed ?calls) =
            [JObj [(''ts'', JNum 1000003), (''pid'', JNum 7), (''tid'', JNum 7),
                   (''ph'', JStr ''B''), (''name'', JStr ''n'')],
             JObj [(''ts'', JNum 2000000), (''pid'', JNum 7), (''tid'', JNum 7),
                   (''ph'', JStr ''E''), (''name'', JStr ''n''), (''cat'', JStr ''a,b'')]]"
    unfolding c by simp
  from e0 eb ne a b show ?thesis unfolding m by blast
qed

theorem streaming_text_stays_open:
  "\<exists>s0 s1 s2.
     new_Tracer JUndefined empty_store = Inr (0, s0)
     \<and> Tracer_begin 0 (JStr ''n'') \<lparr>hrtime_sec = 1, hrtime_nsec = 2500, process_pid = 7\<rparr> s0 = Inr s1
     \<and> flush 0 s1 = Inr s2
     \<and> fragments (pushed (tracers s2 ! 0)) =
          ''['' @ JSON_stringify (JObj [(''ts'', JNum 1000003), (''pid'', JNum 7),
              (''tid'', JNum 7), (''ph'', JStr ''B''), (''name'', JStr ''n'')])
     \<and> JSON_parse (fragments (pushed (tracers s2 ! 0))) = None"
proof -
  let ?ev = "JObj [(''ts'', JNum 1000003), (''pid'', JNum 7),
              (''tid'', JNum 7), (''ph'', JStr ''B''), (''name'', JStr ''n'')]"
  have "JSON_parse (''['' @ join_with (CHR '','' # [CHR 0x0A]) (map JSON_stringify [?ev])) = None"
    by (rule JSON_parse_unclosed) (simp_all add: is_ws_def)
  then have p: "JSON_parse (''['' @ JSON_stringify ?ev) = None"
    by (simp del: JSON_stringify.simps)
  show ?thesis
    using p by (simp add: eval_defs del: JSON_stringify.simps)
qed

end
